theory Spec2Isabelle
  imports Complex_Main "HOL-Library.Multiset"
begin

section \<open>Values, descriptors and the program state\<close>

text \<open>
  JavaScript values as far as mini-react inspects them: it compares them with
  \<open>===\<close>, tests \<open>typeof v === 'function'\<close> and passes them to the host.  Numbers
  are integers here (no NaN, whose \<open>===\<close> is not reflexive); functions and objects
  are references and are compared by identity.
\<close>

datatype jsval =
  VUndefined | VNull | VBool bool | VNum int | VStr string | VFun nat | VObj nat

text \<open>An exception in flight: a \<open>TypeError\<close> raised by the runtime (a property read
  on \<open>undefined\<close> or \<open>null\<close>), or a value thrown by user code.\<close>

datatype exn = TypeError | Thrown jsval

type_synonym addr = nat
type_synonym href = nat
type_synonym attrs = "(string \<times> jsval) list"

text \<open>
  A node descriptor, as \<open>createElement\<close> builds it: \<open>{type, props: {..., children}}\<close>.
  The type is a host tag or a component function (a reference).  The props other than
  \<open>children\<close> are an association list with distinct keys, in insertion order.
\<close>

datatype etype = Host string | Comp nat

datatype element = Element etype attrs "element list"

record props =
  attrs :: attrs
  children :: "element list"

fun elem_type :: "element \<Rightarrow> etype" where
  "elem_type (Element t a cs) = t"

fun elem_props :: "element \<Rightarrow> props" where
  "elem_props (Element t a cs) = \<lparr>attrs = a, children = cs\<rparr>"

text \<open>\<open>createTextElement\<close> of createElement.js.\<close>

definition createTextElement :: "jsval \<Rightarrow> element" where
  "createTextElement text = Element (Host ''TEXT_ELEMENT'') [(''nodeValue'', text)] []"

text \<open>A host instance handle: one that the caller of \<open>render\<close> supplies (the
  container), or the \<open>n\<close>-th node that the library has created.\<close>

datatype dom = Container nat | Created nat

datatype effect_tag = PLACEMENT | UPDATE | DELETION

text \<open>
  A fiber is a mutable object; fibers live in a store (a list, the address is the index,
  allocation appends).  A field that the object literal does not set reads as
  \<open>undefined\<close>, which is \<open>None\<close> here, as is \<open>null\<close>.  \<open>hooks\<close> is an array of hook
  objects; an array element that was never assigned is a hole (\<open>None\<close>).
\<close>

record fiber =
  ftype :: "etype option"
  props :: props
  fdom :: "dom option"
  parent :: "addr option"
  child :: "addr option"
  sibling :: "addr option"
  alternate :: "addr option"
  effectTag :: "effect_tag option"
  hooks :: "href option list option"

text \<open>
  A queued state update: \<open>typeof action === 'function'\<close> tells an updater from a
  replacement value.
\<close>

datatype action = Replace jsval | Updater "jsval \<Rightarrow> jsval"

text \<open>
  Hook objects: \<open>{state, queue}\<close>, \<open>{effect, deps, cleanup}\<close> and \<open>{current}\<close>.  The
  effect and the cleanup are user functions (references); \<open>deps\<close> is \<open>None\<close> when the
  caller passed no dependency list.
\<close>

datatype hook =
  StateHook jsval "action list"
| EffectHook nat "jsval list option" "nat option"
| RefHook jsval

text \<open>Property reads on a hook object; a property the object does not have is
  \<open>undefined\<close>.\<close>

fun hook_state :: "hook \<Rightarrow> jsval" where
  "hook_state (StateHook v q) = v"
| "hook_state h = VUndefined"

fun hook_queue :: "hook \<Rightarrow> action list option" where
  "hook_queue (StateHook v q) = Some q"
| "hook_queue h = None"

fun hook_deps :: "hook \<Rightarrow> jsval list option" where
  "hook_deps (EffectHook f d c) = d"
| "hook_deps h = None"

fun hook_cleanup :: "hook \<Rightarrow> nat option" where
  "hook_cleanup (EffectHook f d c) = c"
| "hook_cleanup h = None"

fun hook_current :: "hook \<Rightarrow> jsval" where
  "hook_current (RefHook v) = v"
| "hook_current h = VUndefined"

text \<open>The closure that \<open>useEffect\<close> queues: it captures the new hook object and the
  effect function.\<close>

datatype thunk = EffectThunk href nat

text \<open>
  A scheduler task.  Its callback is the reconciler's \<open>workLoop\<close>, a user function, or
  a value that is not a function.  \<open>tid\<close> stands for the identity of the task object.
\<close>

datatype callback = WorkLoop | UserCallback nat | NotCallable

record task =
  tid :: nat
  callback :: callback
  priority :: int
  startTime :: rat

datatype host_call =
  CreateElement string dom
| CreateTextNode string dom
| SetProperty dom string jsval
| AddEventListener dom string jsval
| RemoveEventListener dom string jsval
| AppendChild dom dom
| RemoveChild dom dom

text \<open>
  The module-level variables of scheduler.js, reconciler.js and hooks.js, the two
  object stores, and what the outside world sees: the host calls (a create call is
  logged with the handle it returned), \<open>console.error\<close>, the user functions and tasks
  that were invoked, the number of clock readings taken so far, and the callbacks
  posted to the event loop (\<open>flushWork\<close> as a macrotask, \<open>flushEffects\<close> as a
  microtask).
\<close>

record state =
  taskQueue :: "task list"
  isSchedulerRunning :: bool
  currentTask :: "task option"
  wipRoot :: "addr option"
  currentRoot :: "addr option"
  nextUnitOfWork :: "addr option"
  deletions :: "addr list option"
  currentFiber :: "addr option"
  hookIndex :: nat
  effectQueue :: "thunk list"
  fibers :: "fiber list"
  hookObjs :: "hook list"
  hostLog :: "host_call list"
  nextDom :: nat
  consoleLog :: "(string \<times> exn) list"
  callLog :: "nat list"
  taskLog :: "nat list"
  nextTid :: nat
  clockReads :: nat
  pendingFlushWork :: nat
  pendingFlushEffects :: nat

text \<open>What a user function does when it is called with no argument (an effect, a
  cleanup) and what a user task does: it throws, or it returns a value.\<close>

datatype fn_outcome = Throws jsval | Returns jsval

datatype cb_outcome = CbThrows jsval | CbReturns callback

text \<open>
  A component body: it calls hooks in some order and then returns a descriptor or
  throws.  The continuation of \<open>UseState\<close> receives the state and the setter (the hook
  object the setter closes over), that of \<open>UseRef\<close> the box.
\<close>

datatype prog =
  Return element
| Throw jsval
| UseState jsval "jsval \<Rightarrow> href \<Rightarrow> prog"
| UseEffect nat "jsval list option" prog
| UseRef jsval "href \<Rightarrow> prog"

text \<open>
  The environment of a run: the component functions, the user functions, the user
  tasks, the clock (\<open>now n\<close> is what the \<open>n\<close>-th call of \<open>performance.now()\<close> returns,
  in milliseconds) and whether \<open>window\<close> is defined.
\<close>

record env =
  component :: "nat \<Rightarrow> props \<Rightarrow> prog"
  userFn :: "nat \<Rightarrow> fn_outcome"
  userTask :: "nat \<Rightarrow> cb_outcome"
  now :: "nat \<Rightarrow> rat"
  hasWindow :: bool

definition init_state :: state where
  "init_state = \<lparr>taskQueue = [], isSchedulerRunning = False, currentTask = None,
     wipRoot = None, currentRoot = None, nextUnitOfWork = None, deletions = None,
     currentFiber = None, hookIndex = 0, effectQueue = [],
     fibers = [], hookObjs = [], hostLog = [], nextDom = 0, consoleLog = [],
     callLog = [], taskLog = [], nextTid = 0, clockReads = 0,
     pendingFlushWork = 0, pendingFlushEffects = 0\<rparr>"

definition performance_now :: "env \<Rightarrow> state \<Rightarrow> rat \<times> state" where
  "performance_now E s = (now E (clockReads s), s\<lparr>clockReads := Suc (clockReads s)\<rparr>)"

section \<open>scheduler.js: the task queue\<close>

definition TIME_SLICE :: rat where
  "TIME_SLICE = 5"

text \<open>\<open>insertTask\<close>: skip every queued task whose priority is at most the new one's,
  then splice the task in.\<close>

fun insertTask_index :: "task list \<Rightarrow> task \<Rightarrow> nat \<Rightarrow> nat" where
  "insertTask_index [] t index = index"
| "insertTask_index (q # qs) t index =
     (if priority q \<le> priority t then insertTask_index qs t (Suc index) else index)"

definition insertTask :: "task \<Rightarrow> state \<Rightarrow> state" where
  "insertTask t s =
     (let index = insertTask_index (taskQueue s) t 0
      in s\<lparr>taskQueue := take index (taskQueue s) @ [t] @ drop index (taskQueue s)\<rparr>)"

text \<open>\<open>scheduleWork\<close>: post \<open>flushWork\<close> to the event loop, through a
  \<open>MessageChannel\<close> or \<open>setTimeout(flushWork, 0)\<close>.\<close>

definition scheduleWork :: "state \<Rightarrow> state" where
  "scheduleWork s = s\<lparr>pendingFlushWork := Suc (pendingFlushWork s)\<rparr>"

definition scheduleCallback :: "env \<Rightarrow> callback \<Rightarrow> int \<Rightarrow> state \<Rightarrow> task \<times> state" where
  "scheduleCallback E cb prio s =
     (let (t0, s1) = performance_now E s;
          t = \<lparr>tid = nextTid s1, callback = cb, priority = prio, startTime = t0\<rparr>;
          s2 = insertTask t (s1\<lparr>nextTid := Suc (nextTid s1)\<rparr>);
          s3 = (if \<not> isSchedulerRunning s2
                then scheduleWork (s2\<lparr>isSchedulerRunning := True\<rparr>) else s2)
      in (t, s3))"

text \<open>\<open>cancelCallback\<close>: \<open>indexOf\<close> finds the task object by identity.\<close>

definition cancelCallback :: "task \<Rightarrow> state \<Rightarrow> state" where
  "cancelCallback t s =
     (case find (\<lambda>q. tid q = tid t) (taskQueue s) of
        None \<Rightarrow> s
      | Some q \<Rightarrow>
          s\<lparr>taskQueue := takeWhile (\<lambda>q. tid q \<noteq> tid t) (taskQueue s)
               @ tl (dropWhile (\<lambda>q. tid q \<noteq> tid t) (taskQueue s))\<rparr>)"

definition shouldYield :: "env \<Rightarrow> rat \<Rightarrow> state \<Rightarrow> bool \<times> state" where
  "shouldYield E start s =
     (let (t, s1) = performance_now E s in (t - start \<ge> TIME_SLICE, s1))"

section \<open>The object stores\<close>

text \<open>A reference is only ever obtained from an allocation, so it is below the length
  of its store.\<close>

definition getFiber :: "state \<Rightarrow> addr \<Rightarrow> fiber" where
  "getFiber s a = fibers s ! a"

definition updFiber :: "addr \<Rightarrow> (fiber \<Rightarrow> fiber) \<Rightarrow> state \<Rightarrow> state" where
  "updFiber a f s = s\<lparr>fibers := (fibers s)[a := f (fibers s ! a)]\<rparr>"

definition allocFiber :: "fiber \<Rightarrow> state \<Rightarrow> addr \<times> state" where
  "allocFiber f s = (length (fibers s), s\<lparr>fibers := fibers s @ [f]\<rparr>)"

definition getHook :: "state \<Rightarrow> href \<Rightarrow> hook" where
  "getHook s h = hookObjs s ! h"

definition setHook :: "href \<Rightarrow> hook \<Rightarrow> state \<Rightarrow> state" where
  "setHook h v s = s\<lparr>hookObjs := (hookObjs s)[h := v]\<rparr>"

definition allocHook :: "hook \<Rightarrow> state \<Rightarrow> href \<times> state" where
  "allocHook v s = (length (hookObjs s), s\<lparr>hookObjs := hookObjs s @ [v]\<rparr>)"

text \<open>\<open>arr[i] = v\<close> on a JavaScript array: beyond the end, the array grows and the
  positions in between are holes.\<close>

definition array_set :: "'a option list \<Rightarrow> nat \<Rightarrow> 'a \<Rightarrow> 'a option list" where
  "array_set xs i v =
     (if i < length xs then xs[i := Some v]
      else xs @ replicate (i - length xs) None @ [Some v])"

text \<open>\<open>arr[i]\<close>: \<open>undefined\<close> beyond the end.\<close>

definition array_get :: "jsval list \<Rightarrow> nat \<Rightarrow> jsval" where
  "array_get xs i = (if i < length xs then xs ! i else VUndefined)"

section \<open>fiber.js: host instances\<close>

definition host :: "host_call list \<Rightarrow> state \<Rightarrow> state" where
  "host cs s = s\<lparr>hostLog := hostLog s @ cs\<rparr>"

definition prop_get :: "attrs \<Rightarrow> string \<Rightarrow> jsval" where
  "prop_get a k = (case map_of a k of None \<Rightarrow> VUndefined | Some v \<Rightarrow> v)"

definition isEvent :: "string \<Rightarrow> bool" where
  "isEvent key = (take 2 key = ''on'')"

definition isProperty :: "string \<Rightarrow> bool" where
  "isProperty key = (key \<noteq> ''children'' \<and> \<not> isEvent key)"

definition isNew :: "attrs \<Rightarrow> attrs \<Rightarrow> string \<Rightarrow> bool" where
  "isNew prev next key = (prop_get prev key \<noteq> prop_get next key)"

definition isGone :: "attrs \<Rightarrow> attrs \<Rightarrow> string \<Rightarrow> bool" where
  "isGone prev next key = (key \<notin> set (map fst next))"

text \<open>\<open>name.toLowerCase().substring(2)\<close>, on ASCII letters.\<close>

definition toLowerCase :: "string \<Rightarrow> string" where
  "toLowerCase str =
     map (\<lambda>c. if 65 \<le> (of_char c :: nat) \<and> (of_char c :: nat) \<le> 90
               then char_of ((of_char c :: nat) + 32) else c) str"

definition eventType :: "string \<Rightarrow> string" where
  "eventType name = drop 2 (toLowerCase name)"

text \<open>\<open>updateDom\<close>: the four passes, in the source's order.\<close>

definition updateDom_calls :: "dom \<Rightarrow> attrs \<Rightarrow> attrs \<Rightarrow> host_call list" where
  "updateDom_calls d prevProps nextProps =
     map (\<lambda>name. RemoveEventListener d (eventType name) (prop_get prevProps name))
       (filter (\<lambda>key. key \<notin> set (map fst nextProps) \<or> isNew prevProps nextProps key)
         (filter isEvent (map fst prevProps)))
     @ map (\<lambda>name. SetProperty d name (VStr []))
       (filter (isGone prevProps nextProps) (filter isProperty (map fst prevProps)))
     @ map (\<lambda>name. SetProperty d name (prop_get nextProps name))
       (filter (isNew prevProps nextProps) (filter isProperty (map fst nextProps)))
     @ map (\<lambda>name. AddEventListener d (eventType name) (prop_get nextProps name))
       (filter (isNew prevProps nextProps) (filter isEvent (map fst nextProps)))"

definition updateDom :: "dom \<Rightarrow> attrs \<Rightarrow> attrs \<Rightarrow> state \<Rightarrow> state" where
  "updateDom d prevProps nextProps s = host (updateDom_calls d prevProps nextProps) s"

text \<open>\<open>createDom\<close>: a text node for \<open>'TEXT_ELEMENT'\<close>, an element otherwise, then
  \<open>updateDom(dom, {}, fiber.props)\<close>.  A type that is not a string is converted to
  one by \<open>document.createElement\<close>.\<close>

fun type_string :: "etype option \<Rightarrow> string" where
  "type_string (Some (Host tag)) = tag"
| "type_string (Some (Comp c)) = ''function''"
| "type_string None = ''undefined''"

definition createDom :: "fiber \<Rightarrow> state \<Rightarrow> dom \<times> state" where
  "createDom f s =
     (let d = Created (nextDom s);
          s1 = host [if ftype f = Some (Host ''TEXT_ELEMENT'')
                     then CreateTextNode [] d
                     else CreateElement (type_string (ftype f)) d]
                 (s\<lparr>nextDom := Suc (nextDom s)\<rparr>)
      in (d, updateDom d [] (attrs (props f)) s1))"

text \<open>\<open>sameType\<close>: \<open>oldFiber && element && oldFiber.type === element.type\<close>.\<close>

fun sameType :: "fiber option \<Rightarrow> element option \<Rightarrow> bool" where
  "sameType (Some oldFiber) (Some element) = (ftype oldFiber = Some (elem_type element))"
| "sameType oldFiber element = False"

section \<open>reconciler.js: starting a render\<close>

definition render :: "env \<Rightarrow> element \<Rightarrow> dom \<Rightarrow> state \<Rightarrow> state" where
  "render E element container s =
     (let (w, s1) = allocFiber
            \<lparr>ftype = None, props = \<lparr>attrs = [], children = [element]\<rparr>,
             fdom = Some container, parent = None, child = None, sibling = None,
             alternate = currentRoot s, effectTag = None, hooks = None\<rparr> s;
          s2 = s1\<lparr>wipRoot := Some w, deletions := Some [], nextUnitOfWork := Some w\<rparr>
      in snd (scheduleCallback E WorkLoop 0 s2))"

definition scheduleUpdate :: "env \<Rightarrow> state \<Rightarrow> state" where
  "scheduleUpdate E s =
     (case currentRoot s of
        None \<Rightarrow> s
      | Some cr \<Rightarrow>
          (let (w, s1) = allocFiber
                 \<lparr>ftype = None, props = props (getFiber s cr),
                  fdom = fdom (getFiber s cr), parent = None, child = None,
                  sibling = None, alternate = Some cr, effectTag = None, hooks = None\<rparr> s;
               s2 = s1\<lparr>wipRoot := Some w, nextUnitOfWork := Some w, deletions := Some []\<rparr>
           in snd (scheduleCallback E WorkLoop 0 s2)))"

section \<open>hooks.js\<close>

definition setCurrentFiber :: "addr \<Rightarrow> state \<Rightarrow> state" where
  "setCurrentFiber a s =
     (let s1 = s\<lparr>currentFiber := Some a, hookIndex := 0\<rparr>
      in if hooks (getFiber s1 a) = None
         then updFiber a (\<lambda>f. f\<lparr>hooks := Some []\<rparr>) s1 else s1)"

text \<open>\<open>currentFiber?.alternate?.hooks?.[hookIndex]\<close>.\<close>

definition oldHook :: "state \<Rightarrow> href option" where
  "oldHook s =
     (case currentFiber s of
        None \<Rightarrow> None
      | Some cf \<Rightarrow>
          (case alternate (getFiber s cf) of
             None \<Rightarrow> None
           | Some alt \<Rightarrow>
               (case hooks (getFiber s alt) of
                  None \<Rightarrow> None
                | Some hs \<Rightarrow> if hookIndex s < length hs then hs ! hookIndex s else None)))"

text \<open>\<open>currentFiber.hooks[hookIndex] = hook; hookIndex++\<close>, the last two statements
  of every hook.\<close>

definition storeHook :: "href \<Rightarrow> state \<Rightarrow> (exn + unit) \<times> state" where
  "storeHook h s =
     (case currentFiber s of
        None \<Rightarrow> (Inl TypeError, s)
      | Some cf \<Rightarrow>
          (case hooks (getFiber s cf) of
             None \<Rightarrow> (Inl TypeError, s)
           | Some hs \<Rightarrow>
               (Inr (),
                (updFiber cf (\<lambda>f. f\<lparr>hooks := Some (array_set hs (hookIndex s) h)\<rparr>) s)
                  \<lparr>hookIndex := Suc (hookIndex s)\<rparr>)))"

fun applyAction :: "jsval \<Rightarrow> action \<Rightarrow> jsval" where
  "applyAction st (Updater f) = f st"
| "applyAction st (Replace v) = v"

text \<open>\<open>actions.forEach(action => { hook.state = ... })\<close>: each action rewrites the
  \<open>state\<close> field of the new hook object.\<close>

fun set_state :: "jsval \<Rightarrow> hook \<Rightarrow> hook" where
  "set_state v (StateHook old q) = StateHook v q"
| "set_state v h = h"

fun runActions :: "action list \<Rightarrow> href \<Rightarrow> state \<Rightarrow> state" where
  "runActions [] h s = s"
| "runActions (a # as) h s =
     runActions as h
       (setHook h (set_state (applyAction (hook_state (getHook s h)) a) (getHook s h)) s)"

definition useState :: "jsval \<Rightarrow> state \<Rightarrow> (exn + jsval \<times> href) \<times> state" where
  "useState initial s =
     (let old = oldHook s;
          (h, s1) = allocHook
             (StateHook (case old of Some oh \<Rightarrow> hook_state (getHook s oh) | None \<Rightarrow> initial) [])
             s
      in case (case old of Some oh \<Rightarrow> hook_queue (getHook s oh) | None \<Rightarrow> Some []) of
           None \<Rightarrow> (Inl TypeError, s1)
         | Some actions \<Rightarrow>
             (let s2 = runActions actions h s1
              in case storeHook h s2 of
                   (Inl e, s3) \<Rightarrow> (Inl e, s3)
                 | (Inr u, s3) \<Rightarrow> (Inr (hook_state (getHook s3 h), h), s3)))"

text \<open>\<open>hook.queue.push(action); scheduleUpdate()\<close>, where hooks.js's \<open>scheduleUpdate\<close>
  calls the reconciler's through \<open>window.__miniReactScheduleUpdate\<close>.\<close>

definition hooks_scheduleUpdate :: "env \<Rightarrow> state \<Rightarrow> state" where
  "hooks_scheduleUpdate E s = (if hasWindow E then scheduleUpdate E s else s)"

fun push_action :: "action \<Rightarrow> hook \<Rightarrow> hook" where
  "push_action a (StateHook v q) = StateHook v (q @ [a])"
| "push_action a h = h"

definition setState :: "env \<Rightarrow> href \<Rightarrow> action \<Rightarrow> state \<Rightarrow> state" where
  "setState E h a s = hooks_scheduleUpdate E (setHook h (push_action a (getHook s h)) s)"

definition callFn :: "env \<Rightarrow> nat \<Rightarrow> state \<Rightarrow> fn_outcome \<times> state" where
  "callFn E f s = (userFn E f, s\<lparr>callLog := callLog s @ [f]\<rparr>)"

text \<open>\<open>deps.every((dep, i) => dep === oldHook.deps[i])\<close>: it stops at the first
  difference, and reading \<open>oldHook.deps[i]\<close> throws when the old hook has no
  dependency list.\<close>

fun every_dep :: "jsval list \<Rightarrow> nat \<Rightarrow> jsval list option \<Rightarrow> exn + bool" where
  "every_dep [] i old = Inr True"
| "every_dep (dep # ds) i None = Inl TypeError"
| "every_dep (dep # ds) i (Some od) =
     (if dep = array_get od i then every_dep ds (Suc i) (Some od) else Inr False)"

definition hasChanged :: "state \<Rightarrow> href option \<Rightarrow> jsval list option \<Rightarrow> exn + bool" where
  "hasChanged s old deps =
     (case old of
        None \<Rightarrow> Inr True
      | Some oh \<Rightarrow>
          (case deps of
             None \<Rightarrow> Inr True
           | Some ds \<Rightarrow>
               (case every_dep ds 0 (hook_deps (getHook s oh)) of
                  Inl e \<Rightarrow> Inl e
                | Inr b \<Rightarrow> Inr (\<not> b))))"

definition scheduleEffect :: "thunk \<Rightarrow> state \<Rightarrow> state" where
  "scheduleEffect t s =
     s\<lparr>effectQueue := effectQueue s @ [t],
       pendingFlushEffects := Suc (pendingFlushEffects s)\<rparr>"

definition old_cleanup :: "state \<Rightarrow> href option \<Rightarrow> nat option" where
  "old_cleanup s old = (case old of None \<Rightarrow> None | Some oh \<Rightarrow> hook_cleanup (getHook s oh))"

definition useEffect :: "env \<Rightarrow> nat \<Rightarrow> jsval list option \<Rightarrow> state \<Rightarrow> (exn + unit) \<times> state" where
  "useEffect E effect deps s =
     (let old = oldHook s
      in case hasChanged s old deps of
           Inl e \<Rightarrow> (Inl e, s)
         | Inr changed \<Rightarrow>
             (let (h, s1) = allocHook (EffectHook effect deps (old_cleanup s old)) s
              in if changed
                 then (case old_cleanup s old of
                         None \<Rightarrow> storeHook h (scheduleEffect (EffectThunk h effect) s1)
                       | Some c \<Rightarrow>
                           (case callFn E c s1 of
                              (Throws e, s2) \<Rightarrow> (Inl (Thrown e), s2)
                            | (Returns v, s2) \<Rightarrow>
                                storeHook h (scheduleEffect (EffectThunk h effect) s2)))
                 else storeHook h s1))"

definition useRef :: "jsval \<Rightarrow> state \<Rightarrow> (exn + href) \<times> state" where
  "useRef initialValue s =
     (let (h, s1) = allocHook
             (RefHook (case oldHook s of
                         Some oh \<Rightarrow> hook_current (getHook s oh)
                       | None \<Rightarrow> initialValue)) s
      in case storeHook h s1 of
           (Inl e, s2) \<Rightarrow> (Inl e, s2)
         | (Inr u, s2) \<Rightarrow> (Inr h, s2))"

text \<open>The queued closure: \<open>const cleanup = effect(); if (typeof cleanup ===
  'function') hook.cleanup = cleanup\<close>.\<close>

fun set_cleanup :: "nat \<Rightarrow> hook \<Rightarrow> hook" where
  "set_cleanup c (EffectHook f d old) = EffectHook f d (Some c)"
| "set_cleanup c h = h"

fun runThunk :: "env \<Rightarrow> thunk \<Rightarrow> state \<Rightarrow> (exn + unit) \<times> state" where
  "runThunk E (EffectThunk h f) s =
     (case callFn E f s of
        (Throws e, s1) \<Rightarrow> (Inl (Thrown e), s1)
      | (Returns (VFun c), s1) \<Rightarrow> (Inr (), setHook h (set_cleanup c (getHook s1 h)) s1)
      | (Returns v, s1) \<Rightarrow> (Inr (), s1))"

text \<open>\<open>flushEffects\<close>: \<open>while (effectQueue.length > 0) { effect = effectQueue.shift();
  try { effect() } catch (error) { console.error('Effect error:', error) } }\<close>.\<close>

definition tryThunk :: "env \<Rightarrow> thunk \<Rightarrow> state \<Rightarrow> state" where
  "tryThunk E t s =
     (case runThunk E t s of
        (Inl e, s1) \<Rightarrow> s1\<lparr>consoleLog := consoleLog s1 @ [(''Effect error:'', e)]\<rparr>
      | (Inr u, s1) \<Rightarrow> s1)"

lemma effectQueue_tryThunk: "effectQueue (tryThunk E t s) = effectQueue s"
  by (cases t; cases "userFn E (case t of EffectThunk h f \<Rightarrow> f)")
     (auto simp: tryThunk_def callFn_def setHook_def split: jsval.splits)

function flushEffects :: "env \<Rightarrow> state \<Rightarrow> state" where
  "flushEffects E s =
     (case effectQueue s of
        [] \<Rightarrow> s
      | effect # rest \<Rightarrow> flushEffects E (tryThunk E effect (s\<lparr>effectQueue := rest\<rparr>)))"
  by pat_completeness auto
termination
  by (relation "measure (\<lambda>(E, s). length (effectQueue s))")
     (auto simp: effectQueue_tryThunk)

declare flushEffects.simps [simp del]

text \<open>Running a component body against the hook store.\<close>

primrec runProg :: "env \<Rightarrow> prog \<Rightarrow> state \<Rightarrow> (exn + element) \<times> state" where
  "runProg E (Return el) s = (Inr el, s)"
| "runProg E (Throw v) s = (Inl (Thrown v), s)"
| "runProg E (UseState initial k) s =
     (case useState initial s of
        (Inl e, s1) \<Rightarrow> (Inl e, s1)
      | (Inr (v, h), s1) \<Rightarrow> runProg E (k v h) s1)"
| "runProg E (UseEffect effect deps p) s =
     (case useEffect E effect deps s of
        (Inl e, s1) \<Rightarrow> (Inl e, s1)
      | (Inr u, s1) \<Rightarrow> runProg E p s1)"
| "runProg E (UseRef initialValue k) s =
     (case useRef initialValue s of
        (Inl e, s1) \<Rightarrow> (Inl e, s1)
      | (Inr h, s1) \<Rightarrow> runProg E (k h) s1)"

section \<open>reconciler.js: the render phase\<close>

text \<open>
  The loops of the reconciler follow pointers through the fiber store, and a component
  may return a descriptor that contains the component again, so none of them is
  bounded by its arguments.  Each takes fuel, one unit per iteration; \<open>None\<close> means
  that the fuel ran out before the loop ended.
\<close>

text \<open>The three parts of the body of the \<open>while\<close> loop of \<open>reconcileChildren\<close>:
  the new fiber (if any), the deletion of the old one, and the link from the parent
  or from the previous sibling.\<close>

definition makeFiber :: "addr \<Rightarrow> addr option \<Rightarrow> element option \<Rightarrow> state \<Rightarrow> addr option \<times> state" where
  "makeFiber wipFiber oldFiber element s =
     (case (sameType (map_option (getFiber s) oldFiber) element, oldFiber, element) of
        (True, Some oa, Some el) \<Rightarrow>
          (let (n, s1) = allocFiber
                 \<lparr>ftype = ftype (getFiber s oa), props = elem_props el,
                  fdom = fdom (getFiber s oa), parent = Some wipFiber, child = None,
                  sibling = None, alternate = Some oa, effectTag = Some UPDATE,
                  hooks = None\<rparr> s
           in (Some n, s1))
      | (False, oa, Some el) \<Rightarrow>
          (let (n, s1) = allocFiber
                 \<lparr>ftype = Some (elem_type el), props = elem_props el,
                  fdom = None, parent = Some wipFiber, child = None,
                  sibling = None, alternate = None, effectTag = Some PLACEMENT,
                  hooks = None\<rparr> s
           in (Some n, s1))
      | _ \<Rightarrow> (None, s))"

definition markDeletion :: "addr option \<Rightarrow> bool \<Rightarrow> state \<Rightarrow> (exn + unit) \<times> state" where
  "markDeletion oldFiber sameTypeFlag s =
     (case oldFiber of
        Some oa \<Rightarrow>
          (if \<not> sameTypeFlag
           then (let s1 = updFiber oa (\<lambda>f. f\<lparr>effectTag := Some DELETION\<rparr>) s
                 in case deletions s1 of
                      None \<Rightarrow> (Inl TypeError, s1)
                    | Some ds \<Rightarrow> (Inr (), s1\<lparr>deletions := Some (ds @ [oa])\<rparr>))
           else (Inr (), s))
      | None \<Rightarrow> (Inr (), s))"

definition linkFiber ::
  "addr \<Rightarrow> nat \<Rightarrow> element option \<Rightarrow> addr option \<Rightarrow> addr option \<Rightarrow> state \<Rightarrow> (exn + unit) \<times> state"
where
  "linkFiber wipFiber index element prevSibling newFiber s =
     (if index = 0 then (Inr (), updFiber wipFiber (\<lambda>f. f\<lparr>child := newFiber\<rparr>) s)
      else if element \<noteq> None
      then (case prevSibling of
              None \<Rightarrow> (Inl TypeError, s)
            | Some p \<Rightarrow> (Inr (), updFiber p (\<lambda>f. f\<lparr>sibling := newFiber\<rparr>) s))
      else (Inr (), s))"

text \<open>One iteration of the loop.  It returns the new values of \<open>oldFiber\<close> and
  \<open>prevSibling\<close>.\<close>

definition reconcileStep ::
  "addr \<Rightarrow> element list \<Rightarrow> nat \<Rightarrow> addr option \<Rightarrow> addr option \<Rightarrow> state
     \<Rightarrow> (exn + addr option \<times> addr option) \<times> state"
where
  "reconcileStep wipFiber elements index oldFiber prevSibling s =
     (let element = (if index < length elements then Some (elements ! index) else None);
          sameTypeFlag = sameType (map_option (getFiber s) oldFiber) element;
          (newFiber, s1) = makeFiber wipFiber oldFiber element s
      in case markDeletion oldFiber sameTypeFlag s1 of
           (Inl e, s2) \<Rightarrow> (Inl e, s2)
         | (Inr u, s2) \<Rightarrow>
             (let oldFiber' = (case oldFiber of
                                 Some oa \<Rightarrow> sibling (getFiber s2 oa)
                               | None \<Rightarrow> None)
              in case linkFiber wipFiber index element prevSibling newFiber s2 of
                   (Inl e, s3) \<Rightarrow> (Inl e, s3)
                 | (Inr u, s3) \<Rightarrow> (Inr (oldFiber', newFiber), s3)))"

text \<open>\<open>while (index < elements.length || oldFiber != null) { ...; prevSibling =
  newFiber; index++ }\<close>.\<close>

fun reconcileLoop ::
  "nat \<Rightarrow> addr \<Rightarrow> element list \<Rightarrow> nat \<Rightarrow> addr option \<Rightarrow> addr option \<Rightarrow> state
     \<Rightarrow> ((exn + unit) \<times> state) option"
where
  "reconcileLoop 0 wipFiber elements index oldFiber prevSibling s = None"
| "reconcileLoop (Suc fuel) wipFiber elements index oldFiber prevSibling s =
     (if index < length elements \<or> oldFiber \<noteq> None
      then (case reconcileStep wipFiber elements index oldFiber prevSibling s of
              (Inl e, s3) \<Rightarrow> Some (Inl e, s3)
            | (Inr (oldFiber', newFiber), s3) \<Rightarrow>
                reconcileLoop fuel wipFiber elements (Suc index) oldFiber' newFiber s3)
      else Some (Inr (), s))"

definition reconcileChildren ::
  "nat \<Rightarrow> addr \<Rightarrow> element list \<Rightarrow> state \<Rightarrow> ((exn + unit) \<times> state) option"
where
  "reconcileChildren fuel wipFiber elements s =
     reconcileLoop fuel wipFiber elements 0
       (case alternate (getFiber s wipFiber) of
          None \<Rightarrow> None
        | Some alt \<Rightarrow> child (getFiber s alt))
       None s"

definition updateHostComponent :: "nat \<Rightarrow> addr \<Rightarrow> state \<Rightarrow> ((exn + unit) \<times> state) option" where
  "updateHostComponent fuel a s =
     (let s1 = (if fdom (getFiber s a) = None
                then (let (d, s') = createDom (getFiber s a) s
                      in updFiber a (\<lambda>f. f\<lparr>fdom := Some d\<rparr>) s')
                else s)
      in reconcileChildren fuel a (children (props (getFiber s1 a))) s1)"

definition updateFunctionComponent ::
  "env \<Rightarrow> nat \<Rightarrow> addr \<Rightarrow> nat \<Rightarrow> state \<Rightarrow> ((exn + unit) \<times> state) option"
where
  "updateFunctionComponent E fuel a c s =
     (let s1 = setCurrentFiber a s
      in case runProg E (component E c (props (getFiber s1 a))) s1 of
           (Inl e, s2) \<Rightarrow> Some (Inl e, s2)
         | (Inr el, s2) \<Rightarrow> reconcileChildren fuel a [el] s2)"

text \<open>The search for the next unit after a fiber without child: the first sibling
  on the way up.\<close>

fun nextSibling :: "nat \<Rightarrow> state \<Rightarrow> addr option \<Rightarrow> addr option option" where
  "nextSibling 0 s nextFiber = None"
| "nextSibling (Suc fuel) s None = Some None"
| "nextSibling (Suc fuel) s (Some a) =
     (case sibling (getFiber s a) of
        Some sib \<Rightarrow> Some (Some sib)
      | None \<Rightarrow> nextSibling fuel s (parent (getFiber s a)))"

definition performUnitOfWork ::
  "env \<Rightarrow> nat \<Rightarrow> addr \<Rightarrow> state \<Rightarrow> ((exn + addr option) \<times> state) option"
where
  "performUnitOfWork E fuel a s =
     (case (case ftype (getFiber s a) of
              Some (Comp c) \<Rightarrow> updateFunctionComponent E fuel a c s
            | _ \<Rightarrow> updateHostComponent fuel a s) of
        None \<Rightarrow> None
      | Some (Inl e, s1) \<Rightarrow> Some (Inl e, s1)
      | Some (Inr u, s1) \<Rightarrow>
          (case child (getFiber s1 a) of
             Some c \<Rightarrow> Some (Inr (Some c), s1)
           | None \<Rightarrow>
               (case nextSibling fuel s1 (Some a) of
                  None \<Rightarrow> None
                | Some nxt \<Rightarrow> Some (Inr nxt, s1))))"

section \<open>reconciler.js: the commit phase\<close>

text \<open>\<open>while (!domParentFiber.dom) domParentFiber = domParentFiber.parent\<close>.\<close>

fun domParentOf :: "nat \<Rightarrow> state \<Rightarrow> addr option \<Rightarrow> (exn + dom) option" where
  "domParentOf 0 s domParentFiber = None"
| "domParentOf (Suc fuel) s None = Some (Inl TypeError)"
| "domParentOf (Suc fuel) s (Some p) =
     (case fdom (getFiber s p) of
        Some d \<Rightarrow> Some (Inr d)
      | None \<Rightarrow> domParentOf fuel s (parent (getFiber s p)))"

fun commitDeletion :: "nat \<Rightarrow> addr option \<Rightarrow> dom \<Rightarrow> state \<Rightarrow> ((exn + unit) \<times> state) option" where
  "commitDeletion 0 fiber domParent s = None"
| "commitDeletion (Suc fuel) None domParent s = Some (Inl TypeError, s)"
| "commitDeletion (Suc fuel) (Some a) domParent s =
     (case fdom (getFiber s a) of
        Some d \<Rightarrow> Some (Inr (), host [RemoveChild domParent d] s)
      | None \<Rightarrow> commitDeletion fuel (child (getFiber s a)) domParent s)"

definition commitEffect :: "nat \<Rightarrow> addr \<Rightarrow> dom \<Rightarrow> state \<Rightarrow> ((exn + unit) \<times> state) option" where
  "commitEffect fuel a domParent s =
     (let f = getFiber s a
      in case (effectTag f, fdom f) of
           (Some PLACEMENT, Some d) \<Rightarrow> Some (Inr (), host [AppendChild domParent d] s)
         | (Some UPDATE, Some d) \<Rightarrow>
             (case alternate f of
                None \<Rightarrow> Some (Inl TypeError, s)
              | Some alt \<Rightarrow>
                  Some (Inr (), updateDom d (attrs (props (getFiber s alt))) (attrs (props f)) s))
         | (Some DELETION, d) \<Rightarrow> commitDeletion fuel (Some a) domParent s
         | _ \<Rightarrow> Some (Inr (), s))"

fun commitWork :: "nat \<Rightarrow> addr option \<Rightarrow> state \<Rightarrow> ((exn + unit) \<times> state) option" where
  "commitWork 0 fiber s = None"
| "commitWork (Suc fuel) None s = Some (Inr (), s)"
| "commitWork (Suc fuel) (Some a) s =
     (case domParentOf fuel s (parent (getFiber s a)) of
        None \<Rightarrow> None
      | Some (Inl e) \<Rightarrow> Some (Inl e, s)
      | Some (Inr domParent) \<Rightarrow>
          (case commitEffect fuel a domParent s of
             None \<Rightarrow> None
           | Some (Inl e, s1) \<Rightarrow> Some (Inl e, s1)
           | Some (Inr u, s1) \<Rightarrow>
               (case commitWork fuel (child (getFiber s1 a)) s1 of
                  None \<Rightarrow> None
                | Some (Inl e, s2) \<Rightarrow> Some (Inl e, s2)
                | Some (Inr u, s2) \<Rightarrow> commitWork fuel (sibling (getFiber s2 a)) s2)))"

text \<open>\<open>deletions.forEach(commitWork)\<close>.\<close>

fun commitDeletions :: "nat \<Rightarrow> addr list \<Rightarrow> state \<Rightarrow> ((exn + unit) \<times> state) option" where
  "commitDeletions fuel [] s = Some (Inr (), s)"
| "commitDeletions fuel (d # ds) s =
     (case commitWork fuel (Some d) s of
        None \<Rightarrow> None
      | Some (Inl e, s1) \<Rightarrow> Some (Inl e, s1)
      | Some (Inr u, s1) \<Rightarrow> commitDeletions fuel ds s1)"

definition commitRoot :: "nat \<Rightarrow> state \<Rightarrow> ((exn + unit) \<times> state) option" where
  "commitRoot fuel s =
     (case deletions s of
        None \<Rightarrow> Some (Inl TypeError, s)
      | Some ds \<Rightarrow>
          (case commitDeletions fuel ds s of
             None \<Rightarrow> None
           | Some (Inl e, s1) \<Rightarrow> Some (Inl e, s1)
           | Some (Inr u, s1) \<Rightarrow>
               (case wipRoot s1 of
                  None \<Rightarrow> Some (Inl TypeError, s1)
                | Some w \<Rightarrow>
                    (case commitWork fuel (child (getFiber s1 w)) s1 of
                       None \<Rightarrow> None
                     | Some (Inl e, s2) \<Rightarrow> Some (Inl e, s2)
                     | Some (Inr u, s2) \<Rightarrow>
                         Some (Inr (), s2\<lparr>currentRoot := wipRoot s2, wipRoot := None\<rparr>)))))"

section \<open>reconciler.js: the work loop\<close>

text \<open>\<open>while (nextUnitOfWork) nextUnitOfWork = performUnitOfWork(nextUnitOfWork)\<close>:
  the loop has no other exit than the null pointer or an exception.\<close>

fun workLoop_units :: "env \<Rightarrow> nat \<Rightarrow> state \<Rightarrow> ((exn + unit) \<times> state) option" where
  "workLoop_units E 0 s = None"
| "workLoop_units E (Suc fuel) s =
     (case nextUnitOfWork s of
        None \<Rightarrow> Some (Inr (), s)
      | Some a \<Rightarrow>
          (case performUnitOfWork E fuel a s of
             None \<Rightarrow> None
           | Some (Inl e, s1) \<Rightarrow> Some (Inl e, s1)
           | Some (Inr nxt, s1) \<Rightarrow> workLoop_units E fuel (s1\<lparr>nextUnitOfWork := nxt\<rparr>)))"

definition workLoop :: "env \<Rightarrow> nat \<Rightarrow> state \<Rightarrow> ((exn + unit) \<times> state) option" where
  "workLoop E fuel s =
     (case workLoop_units E fuel s of
        None \<Rightarrow> None
      | Some (Inl e, s1) \<Rightarrow> Some (Inl e, s1)
      | Some (Inr u, s1) \<Rightarrow>
          (if nextUnitOfWork s1 = None \<and> wipRoot s1 \<noteq> None
           then commitRoot fuel s1
           else Some (Inr (), s1)))"

section \<open>scheduler.js: running the queue\<close>

text \<open>Calling a task's callback.  \<open>workLoop\<close> returns \<open>undefined\<close>; a user task
  returns a function (work remains) or something else.\<close>

definition runCallback ::
  "env \<Rightarrow> nat \<Rightarrow> task \<Rightarrow> state \<Rightarrow> ((exn + callback) \<times> state) option"
where
  "runCallback E fuel t s =
     (let s1 = s\<lparr>taskLog := taskLog s @ [tid t]\<rparr>
      in case callback t of
           WorkLoop \<Rightarrow>
             (case workLoop E fuel s1 of
                None \<Rightarrow> None
              | Some (Inl e, s2) \<Rightarrow> Some (Inl e, s2)
              | Some (Inr u, s2) \<Rightarrow> Some (Inr NotCallable, s2))
         | UserCallback u \<Rightarrow>
             (case userTask E u of
                CbThrows v \<Rightarrow> Some (Inl (Thrown v), s1)
              | CbReturns r \<Rightarrow> Some (Inr r, s1))
         | NotCallable \<Rightarrow> Some (Inr NotCallable, s))"

text \<open>The \<open>while\<close> loop inside the \<open>try\<close> of \<open>flushWork\<close>.  The clock is read only
  when the queue is not empty.\<close>

fun flushLoop :: "env \<Rightarrow> nat \<Rightarrow> rat \<Rightarrow> state \<Rightarrow> ((exn + unit) \<times> state) option" where
  "flushLoop E 0 start s = None"
| "flushLoop E (Suc fuel) start s =
     (case taskQueue s of
        [] \<Rightarrow> Some (Inr (), s)
      | t # rest \<Rightarrow>
          (let (yield, s1) = shouldYield E start s
           in if yield then Some (Inr (), s1)
              else (let s2 = s1\<lparr>taskQueue := rest, currentTask := Some t\<rparr>
                    in if callback t = NotCallable
                       then flushLoop E fuel start (s2\<lparr>currentTask := None\<rparr>)
                       else (case runCallback E fuel t s2 of
                               None \<Rightarrow> None
                             | Some (Inl e, s3) \<Rightarrow> Some (Inl e, s3)
                             | Some (Inr result, s3) \<Rightarrow>
                                 flushLoop E fuel start
                                   ((if result \<noteq> NotCallable
                                     then insertTask (t\<lparr>callback := result\<rparr>) s3
                                     else s3)\<lparr>currentTask := None\<rparr>)))))"

definition flushWork :: "env \<Rightarrow> nat \<Rightarrow> state \<Rightarrow> state option" where
  "flushWork E fuel s =
     (let (start, s1) = performance_now E s
      in case flushLoop E fuel start s1 of
           None \<Rightarrow> None
         | Some (r, s2) \<Rightarrow>
             (let s3 = (case r of
                          Inl e \<Rightarrow> s2\<lparr>consoleLog := consoleLog s2 @ [(''Scheduler error:'', e)]\<rparr>
                        | Inr u \<Rightarrow> s2);
                  s4 = s3\<lparr>currentTask := None\<rparr>
              in Some (if taskQueue s4 \<noteq> [] then scheduleWork s4
                       else s4\<lparr>isSchedulerRunning := False\<rparr>)))"

section \<open>The event loop\<close>

text \<open>
  One turn of the host's event loop runs one posted \<open>flushWork\<close> and then the posted
  microtasks, each of which is \<open>flushEffects\<close>.
\<close>

definition runMicrotasks :: "env \<Rightarrow> state \<Rightarrow> state" where
  "runMicrotasks E s =
     ((flushEffects E ^^ pendingFlushEffects s) s)\<lparr>pendingFlushEffects := 0\<rparr>"

definition turn :: "env \<Rightarrow> nat \<Rightarrow> state \<Rightarrow> state option" where
  "turn E fuel s =
     (if pendingFlushWork s = 0 then Some s
      else (case flushWork E fuel (s\<lparr>pendingFlushWork := pendingFlushWork s - 1\<rparr>) of
              None \<Rightarrow> None
            | Some s1 \<Rightarrow> Some (runMicrotasks E s1)))"

fun turns :: "env \<Rightarrow> nat \<Rightarrow> nat \<Rightarrow> state \<Rightarrow> state option" where
  "turns E fuel 0 s = Some s"
| "turns E fuel (Suc n) s =
     (case turn E fuel s of None \<Rightarrow> None | Some s1 \<Rightarrow> turns E fuel n s1)"

section \<open>A concrete environment and the left fold of the specification\<close>

text \<open>An environment for concrete runs: a clock that advances by one millisecond per
  reading, user functions that return \<open>undefined\<close>, tasks that return nothing.\<close>

definition demo_env :: env where
  "demo_env = \<lparr>component = (\<lambda>c p. Throw VUndefined), userFn = (\<lambda>f. Returns VUndefined),
     userTask = (\<lambda>u. CbReturns NotCallable), now = (\<lambda>n. of_nat n), hasWindow = True\<rparr>"

text \<open>The left fold of queued updates over a state, in the specification's words: a
  value update replaces the accumulator, a function update is applied to it.\<close>

definition left_fold_updates :: "jsval \<Rightarrow> action list \<Rightarrow> jsval" where
  "left_fold_updates v us =
     foldl (\<lambda>acc u. case u of Replace x \<Rightarrow> x | Updater f \<Rightarrow> f acc) v us"

text \<open>
  A component fiber as \<open>reconcileChildren\<close> creates it, and the hook context of two
  successive renders of one component slot: \<open>first_render\<close> is the state when the
  body starts on mount (fiber 0 is current), \<open>rerender s\<close> the state when the body
  starts on the next render (a new fiber whose alternate is fiber 0 is current).
\<close>

definition component_fiber :: "addr option \<Rightarrow> fiber" where
  "component_fiber alt = \<lparr>ftype = Some (Comp 0), props = \<lparr>attrs = [], children = []\<rparr>,
     fdom = None, parent = None, child = None, sibling = None, alternate = alt,
     effectTag = Some (if alt = None then PLACEMENT else UPDATE), hooks = None\<rparr>"

definition first_render :: state where
  "first_render = setCurrentFiber 0 (snd (allocFiber (component_fiber None) init_state))"

definition rerender :: "state \<Rightarrow> state" where
  "rerender s =
     setCurrentFiber (length (fibers s)) (snd (allocFiber (component_fiber (Some 0)) s))"

definition increment :: "jsval \<Rightarrow> jsval" where
  "increment v = (case v of VNum n \<Rightarrow> VNum (n + 1) | _ \<Rightarrow> v)"

section \<open>What the render phase leaves alone\<close>

text \<open>\<open>reconcileChildren\<close> works on the fibers and on the deletion list only.\<close>

definition outside_tree :: "state \<Rightarrow> state" where
  "outside_tree s = s\<lparr>fibers := [], deletions := None\<rparr>"

lemma outside_tree_makeFiber: "outside_tree (snd (makeFiber w ob el s)) = outside_tree s"
  by (simp add: makeFiber_def allocFiber_def outside_tree_def
        split: bool.splits option.splits)

lemma outside_tree_markDeletion: "outside_tree (snd (markDeletion ob flag s)) = outside_tree s"
  by (simp add: markDeletion_def updFiber_def outside_tree_def Let_def split: option.splits)

lemma outside_tree_linkFiber: "outside_tree (snd (linkFiber w i el p n s)) = outside_tree s"
  by (simp add: linkFiber_def updFiber_def outside_tree_def split: option.splits)

lemma outside_tree_reconcileStep:
  "outside_tree (snd (reconcileStep w es i ob p s)) = outside_tree s"
proof -
  let ?el = "if i < length es then Some (es ! i) else None"
  let ?flag = "sameType (map_option (getFiber s) ob) ?el"
  obtain n s1 where mk: "makeFiber w ob ?el s = (n, s1)" by (cases "makeFiber w ob ?el s")
  obtain r2 s2 where md: "markDeletion ob ?flag s1 = (r2, s2)"
    by (cases "markDeletion ob ?flag s1")
  obtain r3 s3 where lk: "linkFiber w i ?el p n s2 = (r3, s3)"
    by (cases "linkFiber w i ?el p n s2")
  from outside_tree_makeFiber [of w ob ?el s] mk have 1: "outside_tree s1 = outside_tree s"
    by simp
  from outside_tree_markDeletion [of ob ?flag s1] md have 2: "outside_tree s2 = outside_tree s1"
    by simp
  from outside_tree_linkFiber [of w i ?el p n s2] lk have 3: "outside_tree s3 = outside_tree s2"
    by simp
  have "snd (reconcileStep w es i ob p s) = s2 \<or> snd (reconcileStep w es i ob p s) = s3"
    using mk md lk by (cases r2; cases r3) (simp_all add: reconcileStep_def Let_def)
  with 1 2 3 show ?thesis by auto
qed

lemma outside_tree_reconcileLoop:
  "reconcileLoop fuel w es i ob p s = Some (r, s') \<Longrightarrow> outside_tree s' = outside_tree s"
proof (induction fuel arbitrary: i ob p s)
  case 0
  then show ?case by simp
next
  case (Suc fuel)
  show ?case
  proof (cases "i < length es \<or> ob \<noteq> None")
    case False
    with Suc.prems show ?thesis by simp
  next
    case True
    obtain x s3 where step: "reconcileStep w es i ob p s = (x, s3)"
      by (cases "reconcileStep w es i ob p s")
    with outside_tree_reconcileStep [of w es i ob p s]
    have f: "outside_tree s3 = outside_tree s" by simp
    show ?thesis
    proof (cases x)
      case (Inl e)
      with True step Suc.prems f show ?thesis by simp
    next
      case (Inr y)
      obtain ob' p' where y: "y = (ob', p')" by (cases y)
      with Inr True step Suc.prems
      have "reconcileLoop fuel w es (Suc i) ob' p' s3 = Some (r, s')" by simp
      from Suc.IH [OF this] f show ?thesis by simp
    qed
  qed
qed

lemma outside_tree_reconcileChildren:
  "reconcileChildren fuel w es s = Some (r, s') \<Longrightarrow> outside_tree s' = outside_tree s"
  unfolding reconcileChildren_def by (rule outside_tree_reconcileLoop)

lemma outside_tree_hookObjs: "outside_tree s' = outside_tree s \<Longrightarrow> hookObjs s' = hookObjs s"
  by (drule arg_cong [where f = hookObjs]) (simp add: outside_tree_def)

text \<open>A unit of a host fiber (or of the root) leaves the hook objects alone.\<close>

lemma hookObjs_host_unit:
  assumes "performUnitOfWork E fuel a s = Some (r, s')"
    and "\<forall>c. ftype (getFiber s a) \<noteq> Some (Comp c)"
  shows "hookObjs s' = hookObjs s"
proof -
  let ?s1 = "if fdom (getFiber s a) = None
             then (let (d, s') = createDom (getFiber s a) s
                   in updFiber a (\<lambda>f. f\<lparr>fdom := Some d\<rparr>) s')
             else s"
  have h1: "hookObjs ?s1 = hookObjs s"
    by (simp add: createDom_def updateDom_def host_def updFiber_def Let_def split_def
          split: option.splits etype.splits)
  from assms(2) have host: "(case ftype (getFiber s a) of
              Some (Comp c) \<Rightarrow> updateFunctionComponent E fuel a c s
            | _ \<Rightarrow> updateHostComponent fuel a s) = updateHostComponent fuel a s"
    by (auto split: option.splits etype.splits)
  from assms(1) obtain r1 s2 where u: "updateHostComponent fuel a s = Some (r1, s2)"
    and s': "s' = s2"
    unfolding performUnitOfWork_def host
    by (auto split: option.splits sum.splits prod.splits)
  from u have "reconcileChildren fuel a (children (props (getFiber ?s1 a))) ?s1 = Some (r1, s2)"
    by (simp add: updateHostComponent_def Let_def)
  from outside_tree_reconcileChildren [OF this] have "hookObjs s2 = hookObjs ?s1"
    by (rule outside_tree_hookObjs)
  with h1 s' show ?thesis by simp
qed

section \<open>Properties of the state setter and the state hook\<close>

text \<open>
  C10.  \<open>scheduleUpdate\<close>, which every state setter calls, does nothing at all while no
  tree has been committed (\<open>currentRoot\<close> is still null): the state is returned as it
  was, so no work-in-progress root is created, the next-unit pointer and the deletion
  list are untouched and no task is enqueued; a setter then only pushes onto its
  queue.
\<close>

theorem scheduleUpdate_noop_before_first_commit:
  assumes "currentRoot s = None"
  shows "scheduleUpdate E s = s \<and> hooks_scheduleUpdate E s = s
         \<and> setState E h a s = setHook h (push_action a (getHook s h)) s"
  using assms by (simp add: scheduleUpdate_def hooks_scheduleUpdate_def setState_def setHook_def)

theorem scheduleUpdate_noop_witness:
  "currentRoot (render demo_env (Element (Host ''div'') [] []) (Container 0) init_state) = None
   \<and> scheduleUpdate demo_env
        (render demo_env (Element (Host ''div'') [] []) (Container 0) init_state)
       = render demo_env (Element (Host ''div'') [] []) (Container 0) init_state"
proof -
  have h: "currentRoot (render demo_env (Element (Host ''div'') [] []) (Container 0) init_state)
             = None"
    by (simp add: render_def init_state_def allocFiber_def scheduleCallback_def
        performance_now_def insertTask_def scheduleWork_def Let_def split_def)
  from scheduleUpdate_noop_before_first_commit [OF h, of demo_env] h show ?thesis by simp
qed

lemma hookObjs_scheduleUpdate: "hookObjs (scheduleUpdate E s) = hookObjs s"
  by (simp add: scheduleUpdate_def allocFiber_def scheduleCallback_def performance_now_def
        insertTask_def scheduleWork_def Let_def split_def split: option.splits)

lemma hookObjs_setState:
  "hookObjs (setState E h a s) = (hookObjs s)[h := push_action a (hookObjs s ! h)]"
  by (simp add: setState_def hooks_scheduleUpdate_def hookObjs_scheduleUpdate setHook_def
        getHook_def)

lemma runActions_fold:
  "h < length (hookObjs s) \<Longrightarrow> getHook s h = StateHook v q \<Longrightarrow>
   runActions as h s
     = s\<lparr>hookObjs := (hookObjs s)[h := StateHook (foldl applyAction v as) q]\<rparr>"
proof (induction as arbitrary: s v)
  case Nil
  then have "(hookObjs s)[h := StateHook v q] = hookObjs s"
    by (metis getHook_def list_update_id)
  then show ?case by simp
next
  case (Cons a as)
  let ?s1 = "setHook h (set_state (applyAction (hook_state (getHook s h)) a) (getHook s h)) s"
  have 1: "h < length (hookObjs ?s1)" using Cons.prems by (simp add: setHook_def)
  have 2: "getHook ?s1 h = StateHook (applyAction v a) q"
    using Cons.prems by (simp add: setHook_def getHook_def)
  from Cons.IH [OF 1 2] show ?case
    using Cons.prems by (simp add: setHook_def)
qed

lemma applyAction_case:
  "applyAction = (\<lambda>acc u. case u of Replace x \<Rightarrow> x | Updater f \<Rightarrow> f acc)"
  by (intro ext) (simp split: action.splits)

lemma useState_old:
  assumes "oldHook r = Some oh" and "getHook r oh = StateHook v us"
    and "currentFiber r = Some cf" and "hooks (getFiber r cf) = Some hs"
  shows "fst (useState initial r) = Inr (left_fold_updates v us, length (hookObjs r))"
proof -
  let ?h = "length (hookObjs r)"
  let ?s1 = "r\<lparr>hookObjs := hookObjs r @ [StateHook v []]\<rparr>"
  have a: "?h < length (hookObjs ?s1)" by simp
  have b: "getHook ?s1 ?h = StateHook v []" by (simp add: getHook_def)
  note H = runActions_fold [OF a b, of us]
  show ?thesis
    using assms
    by (simp add: useState_def allocHook_def H storeHook_def getFiber_def updFiber_def
        getHook_def left_fold_updates_def applyAction_case [symmetric])
qed

text \<open>A component that shows a counter: one state slot, initially 0, written into the
  \<open>count\<close> attribute of a \<open>p\<close>.\<close>

definition counter_env :: env where
  "counter_env = demo_env\<lparr>component :=
     (\<lambda>c p. UseState (VNum 0) (\<lambda>v h. Return (Element (Host ''p'') [(''count'', v)] [])))\<rparr>"

text \<open>A sequence of setter calls.  A setter is the closure over the hook object that
  its render created, so a call names that object.\<close>

definition setter_calls :: "env \<Rightarrow> (href \<times> action) list \<Rightarrow> state \<Rightarrow> state" where
  "setter_calls E calls s = foldl (\<lambda>s (h, u). setState E h u s) s calls"

definition updates_through :: "href \<Rightarrow> (href \<times> action) list \<Rightarrow> action list" where
  "updates_through h calls = map snd (filter (\<lambda>(h', u). h' = h) calls)"

text \<open>The counter is mounted and the setter that the mount returned (it pushes onto
  hook object 0) is called with \<open>increment\<close>; the event loop takes its turn after
  each.  In \<open>stale_setter_run\<close> the same setter is then called once more.\<close>

definition two_renders :: "state option" where
  "two_renders =
     Option.bind
       (turn counter_env 20
          (render counter_env (Element (Comp 0) [] []) (Container 0) init_state))
       (\<lambda>s. turn counter_env 20 (setState counter_env 0 (Updater increment) s))"

definition stale_setter_run :: "state option" where
  "stale_setter_run =
     Option.bind two_renders
       (\<lambda>s. turn counter_env 20 (setState counter_env 0 (Updater increment) s))"

text \<open>The state in which the body of a component directly under the root starts: the
  unit of the root has been performed and the component's fiber has been made
  current.\<close>

definition slot_reached :: "env \<Rightarrow> nat \<Rightarrow> state \<Rightarrow> state option" where
  "slot_reached E fuel s =
     (case nextUnitOfWork s of
        None \<Rightarrow> None
      | Some w \<Rightarrow>
          (case performUnitOfWork E fuel w s of
             Some (Inr (Some a), s1) \<Rightarrow> Some (setCurrentFiber a s1)
           | _ \<Rightarrow> None))"

lemma getHook_setter_calls:
  "oh < length (hookObjs s) \<Longrightarrow> getHook s oh = StateHook v q \<Longrightarrow>
   getHook (setter_calls E calls s) oh = StateHook v (q @ updates_through oh calls)
   \<and> length (hookObjs (setter_calls E calls s)) = length (hookObjs s)"
proof (induction calls arbitrary: s q)
  case Nil
  then show ?case by (simp add: setter_calls_def updates_through_def)
next
  case (Cons c calls)
  obtain h u where c: "c = (h, u)" by (cases c)
  have 1: "oh < length (hookObjs (setState E h u s))"
    using Cons.prems by (simp add: hookObjs_setState)
  have 2: "getHook (setState E h u s) oh = StateHook v (q @ updates_through oh [c])"
    using Cons.prems c by (simp add: getHook_def hookObjs_setState updates_through_def)
  have 3: "setter_calls E (c # calls) s = setter_calls E calls (setState E h u s)"
    using c by (simp add: setter_calls_def)
  have 4: "updates_through oh (c # calls) = updates_through oh [c] @ updates_through oh calls"
    by (simp add: updates_through_def)
  from Cons.IH [OF 1 2] show ?case
    unfolding 3 4 by (simp add: hookObjs_setState)
qed

text \<open>
  C3, as stated, fails for a setter of an earlier render.  Every render makes a new
  hook object and a new setter for the slot, and the next render reads the queue of
  the object of the render before it.  The counter is mounted (state 0) and the
  mount's setter is called with \<open>increment\<close>: the second render returns 1.  The same
  setter is called with \<open>increment\<close> again; it pushes onto the mount's hook object
  (whose queue now has two entries) and a third render is scheduled and committed,
  but that render reads the object of the second render, whose queue is empty: it
  returns 1 again, not the fold 2, and the host sees no new value.
\<close>

theorem stale_setter_counterexample:
  "map_option
     (\<lambda>s. (map hook_state (hookObjs s),
           map (\<lambda>h. map_option length (hook_queue h)) (hookObjs s),
           hostLog s, currentRoot s, wipRoot s))
     stale_setter_run
   = Some ([VNum 0, VNum 1, VNum 1], [Some 2, Some 0, Some 0],
           [CreateElement ''p'' (Created 0), SetProperty (Created 0) ''count'' (VNum 0),
            AppendChild (Container 0) (Created 0),
            SetProperty (Created 0) ''count'' (VNum 1)],
           Some 6, None)"
  by code_simp

text \<open>
  C3, amended.  A render has made the hook object \<open>oh\<close> of a slot, with the committed
  state \<open>v\<close> and an empty queue.  Then setters are called, in any order: the setter
  that this render returned, which pushes onto \<open>oh\<close>, and setters of other hook
  objects (of other slots or of earlier renders of this slot).  Then the next
  render reaches the slot (it finds \<open>oh\<close> as the old hook, as the calls left it).  The
  state that \<open>useState\<close> returns on that render is the left fold over \<open>v\<close> of the
  updates made through the setter of \<open>oh\<close>, in call order; the updates made through
  the other setters do not enter it.
\<close>

theorem useState_folds_updates_of_last_setter:
  assumes "oh < length (hookObjs s0)" and "getHook s0 oh = StateHook v []"
    and "getHook r oh = getHook (setter_calls E calls s0) oh"
    and "oldHook r = Some oh"
    and "currentFiber r = Some cf" and "hooks (getFiber r cf) = Some hs"
  shows "fst (useState initial r)
           = Inr (left_fold_updates v (updates_through oh calls), length (hookObjs r))"
proof -
  from getHook_setter_calls [OF assms(1,2), of E calls] assms(3)
  have "getHook r oh = StateHook v (updates_through oh calls)" by simp
  from useState_old [OF assms(4) this assms(5,6)] show ?thesis .
qed

lemma hookObjs_setCurrentFiber: "hookObjs (setCurrentFiber a s) = hookObjs s"
  by (simp add: setCurrentFiber_def updFiber_def Let_def)

theorem useState_folds_updates_of_last_setter_witness:
  "(case Option.bind two_renders
           (\<lambda>s0. slot_reached counter_env 10
                    (setter_calls counter_env
                       [(1, Updater increment), (0, Replace (VNum 9)),
                        (1, Replace (VNum 5)), (1, Updater increment)] s0)) of
      None \<Rightarrow> False
    | Some r \<Rightarrow> fst (useState (VNum 0) r) = Inr (VNum 6, 2))"
proof -
  let ?calls = "[(1, Updater increment), (0, Replace (VNum 9)),
                 (1, Replace (VNum 5)), (1, Updater increment)] :: (href \<times> action) list"
  have pre: "case two_renders of
               None \<Rightarrow> False
             | Some s0 \<Rightarrow>
                 length (hookObjs s0) = 2 \<and> hook_state (getHook s0 1) = VNum 1
                 \<and> map_option length (hook_queue (getHook s0 1)) = Some 0
                 \<and> (case nextUnitOfWork (setter_calls counter_env ?calls s0) of
                      None \<Rightarrow> False
                    | Some w \<Rightarrow>
                        ftype (getFiber (setter_calls counter_env ?calls s0) w) = None
                        \<and> (case performUnitOfWork counter_env 10 w
                                   (setter_calls counter_env ?calls s0) of
                             Some (Inr (Some a), s1) \<Rightarrow>
                               oldHook (setCurrentFiber a s1) = Some 1
                               \<and> currentFiber (setCurrentFiber a s1) = Some a
                               \<and> hooks (getFiber (setCurrentFiber a s1) a) = Some []
                           | _ \<Rightarrow> False))"
    by code_simp
  then obtain s0 where s0: "two_renders = Some s0"
    by (cases two_renders) simp_all
  let ?s3 = "setter_calls counter_env ?calls s0"
  from pre [unfolded s0 option.case] have
    n: "length (hookObjs s0) = 2" and v: "hook_state (getHook s0 1) = VNum 1"
    and q: "map_option length (hook_queue (getHook s0 1)) = Some 0"
    and rest: "case nextUnitOfWork ?s3 of
                 None \<Rightarrow> False
               | Some w \<Rightarrow>
                   ftype (getFiber ?s3 w) = None
                   \<and> (case performUnitOfWork counter_env 10 w ?s3 of
                        Some (Inr (Some a), s1) \<Rightarrow>
                          oldHook (setCurrentFiber a s1) = Some 1
                          \<and> currentFiber (setCurrentFiber a s1) = Some a
                          \<and> hooks (getFiber (setCurrentFiber a s1) a) = Some []
                      | _ \<Rightarrow> False)"
    by blast+
  from rest obtain w where w: "nextUnitOfWork ?s3 = Some w"
    by (cases "nextUnitOfWork ?s3") simp_all
  from rest [unfolded w option.case] have
    root: "ftype (getFiber ?s3 w) = None"
    and unit: "case performUnitOfWork counter_env 10 w ?s3 of
                 Some (Inr (Some a), s1) \<Rightarrow>
                   oldHook (setCurrentFiber a s1) = Some 1
                   \<and> currentFiber (setCurrentFiber a s1) = Some a
                   \<and> hooks (getFiber (setCurrentFiber a s1) a) = Some []
               | _ \<Rightarrow> False"
    by blast+
  from unit obtain a s1 where
    p: "performUnitOfWork counter_env 10 w ?s3 = Some (Inr (Some a), s1)"
    by (auto split: option.splits prod.splits sum.splits)
  let ?r = "setCurrentFiber a s1"
  from unit [unfolded p option.case prod.case sum.case] have
    old: "oldHook ?r = Some 1" and cur: "currentFiber ?r = Some a"
    and hs: "hooks (getFiber ?r a) = Some []"
    by blast+
  have r: "Option.bind two_renders (\<lambda>s0. slot_reached counter_env 10
                                            (setter_calls counter_env ?calls s0)) = Some ?r"
    unfolding s0 slot_reached_def
    by (simp only: Option.bind.bind_lunit w p option.case prod.case sum.case)
  have 1: "1 < length (hookObjs s0)" using n by simp
  have 2: "getHook s0 1 = StateHook (VNum 1) []"
    using v q by (cases "getHook s0 1") simp_all
  have "hookObjs s1 = hookObjs ?s3"
    using hookObjs_host_unit [OF p] root by simp
  then have 3: "getHook ?r 1 = getHook ?s3 1"
    by (simp add: getHook_def hookObjs_setCurrentFiber)
  have 4: "left_fold_updates (VNum 1) (updates_through 1 ?calls) = VNum 6"
    by (simp add: left_fold_updates_def updates_through_def increment_def)
  have 5: "length (hookObjs ?r) = 2"
    using \<open>hookObjs s1 = hookObjs ?s3\<close> getHook_setter_calls [OF 1 2, of counter_env ?calls] n
    by (simp add: hookObjs_setCurrentFiber)
  from useState_folds_updates_of_last_setter [OF 1 2 3 old cur hs, of "VNum 0"]
  show ?thesis unfolding r option.case 4 5 .
qed

section \<open>Properties of the ref hook\<close>

lemmas hook_eval =
  first_render_def rerender_def init_state_def component_fiber_def
  setCurrentFiber_def allocFiber_def allocHook_def getFiber_def updFiber_def
  getHook_def setHook_def oldHook_def storeHook_def array_set_def array_get_def
  scheduleEffect_def callFn_def old_cleanup_def hasChanged_def Let_def

text \<open>
  C7, as stated, fails: \<open>useRef\<close> builds a new object on every render.  On mount the
  hook returns box 0; on the next render of the same slot it returns box 1.
\<close>

theorem useRef_identity_counterexample:
  "fst (useRef (VNum 7) first_render) = Inr 0
   \<and> fst (useRef (VNum 7) (rerender (snd (useRef (VNum 7) first_render)))) = Inr 1"
  by (simp add: useRef_def hook_eval)

text \<open>
  C7, amended.  When the slot has a hook object from the previous render, \<open>useRef\<close>
  returns a newly allocated box, which is not the previous one; its \<open>current\<close> is the
  value that the previous box holds at that moment, the previous box is left as it
  was, and the new box is what the slot of the new fiber holds.
\<close>

theorem useRef_fresh_box_carries_current:
  assumes "oldHook s = Some oh" and "oh < length (hookObjs s)"
    and "currentFiber s = Some cf" and "hooks (getFiber s cf) = Some hs"
  shows "fst (useRef initialValue s) = Inr (length (hookObjs s))
         \<and> length (hookObjs s) \<noteq> oh
         \<and> hook_current (getHook (snd (useRef initialValue s)) (length (hookObjs s)))
             = hook_current (getHook s oh)
         \<and> getHook (snd (useRef initialValue s)) oh = getHook s oh"
  using assms
  by (simp add: useRef_def allocHook_def storeHook_def getHook_def updFiber_def getFiber_def
      nth_append)

theorem useRef_fresh_box_witness:
  "fst (useRef VNull (rerender (snd (useRef (VNum 7) first_render)))) = Inr 1
   \<and> hook_current (getHook (snd (useRef VNull (rerender (snd (useRef (VNum 7) first_render))))) 1)
       = VNum 7"
proof -
  let ?r = "rerender (snd (useRef (VNum 7) first_render))"
  have r: "?r = init_state\<lparr>currentFiber := Some 1, hookIndex := 0,
                  fibers := [(component_fiber None)\<lparr>hooks := Some [Some 0]\<rparr>,
                             (component_fiber (Some 0))\<lparr>hooks := Some []\<rparr>],
                  hookObjs := [RefHook (VNum 7)]\<rparr>"
    by (simp add: useRef_def hook_eval)
  have 1: "oldHook ?r = Some 0" unfolding r by (simp add: hook_eval)
  have 2: "0 < length (hookObjs ?r)" unfolding r by simp
  have 3: "currentFiber ?r = Some 1" unfolding r by simp
  have 4: "hooks (getFiber ?r 1) = Some []" unfolding r by (simp add: getFiber_def)
  have 5: "length (hookObjs ?r) = 1" unfolding r by simp
  have 6: "hook_current (getHook ?r 0) = VNum 7" unfolding r by (simp add: getHook_def)
  from useRef_fresh_box_carries_current [OF 1 2 3 4, of VNull] show ?thesis
    unfolding 5 6 by simp
qed

section \<open>Properties of the effect hook\<close>

text \<open>The dependency list of the previous slot (empty when there is none), and the
  comparison that \<open>useEffect\<close> makes: over the positions of the new list only, a
  position past the end of the old list reading as \<open>undefined\<close>.\<close>

definition prev_deps :: "state \<Rightarrow> jsval list" where
  "prev_deps s =
     (case oldHook s of
        None \<Rightarrow> []
      | Some oh \<Rightarrow> (case hook_deps (getHook s oh) of None \<Rightarrow> [] | Some od \<Rightarrow> od))"

definition deps_differ :: "jsval list \<Rightarrow> jsval list \<Rightarrow> bool" where
  "deps_differ ds od = (\<exists>i < length ds. ds ! i \<noteq> array_get od i)"

definition fires :: "state \<Rightarrow> jsval list option \<Rightarrow> bool" where
  "fires s deps =
     (case deps of
        None \<Rightarrow> True
      | Some ds \<Rightarrow> oldHook s = None \<or> deps_differ ds (prev_deps s))"

lemma every_dep_Some:
  "every_dep ds i (Some od) = Inr (\<forall>j < length ds. ds ! j = array_get od (i + j))"
proof (induction ds arbitrary: i)
  case Nil
  then show ?case by simp
next
  case (Cons d ds)
  have "(\<forall>j < Suc (length ds). (d # ds) ! j = array_get od (i + j))
        \<longleftrightarrow> d = array_get od i \<and> (\<forall>j < length ds. ds ! j = array_get od (Suc i + j))"
    by (auto simp: less_Suc_eq_0_disj)
  with Cons.IH [of "Suc i"] show ?case by auto
qed

lemma hasChanged_fires:
  assumes "hasChanged s (oldHook s) deps = Inr b"
  shows "b = fires s deps"
proof (cases "oldHook s")
  case None
  with assms show ?thesis
    by (auto simp: hasChanged_def fires_def split: option.splits)
next
  case (Some oh)
  show ?thesis
  proof (cases deps)
    case None
    with assms Some show ?thesis by (simp add: hasChanged_def fires_def)
  next
    case ds: (Some ds)
    show ?thesis
    proof (cases "hook_deps (getHook s oh)")
      case None
      with assms Some ds have "ds = []"
        by (cases ds) (simp_all add: hasChanged_def)
      with assms Some ds None show ?thesis
        by (simp add: hasChanged_def fires_def deps_differ_def)
    next
      case od: (Some od)
      with assms Some ds show ?thesis
        by (auto simp: hasChanged_def fires_def deps_differ_def prev_deps_def every_dep_Some)
    qed
  qed
qed

text \<open>
  C5, as stated, fails where the new dependency list is shorter than the old one: the
  slot had \<open>[1]\<close> and the next render passes \<open>[]\<close>.  Position 0 differs (\<open>1\<close> against
  \<open>undefined\<close>), the list is not omitted, a prior slot exists, and yet \<open>useEffect\<close>
  returns normally without queueing the effect.
\<close>

theorem useEffect_shorter_deps_counterexample:
  "array_get [VNum 1] 0 \<noteq> array_get [] 0
   \<and> oldHook (rerender (snd (useEffect demo_env 7 (Some [VNum 1]) first_render))) = Some 0
   \<and> prev_deps (rerender (snd (useEffect demo_env 7 (Some [VNum 1]) first_render))) = [VNum 1]
   \<and> fst (useEffect demo_env 7 (Some [])
            (rerender (snd (useEffect demo_env 7 (Some [VNum 1]) first_render)))) = Inr ()
   \<and> effectQueue (snd (useEffect demo_env 7 (Some [])
            (rerender (snd (useEffect demo_env 7 (Some [VNum 1]) first_render)))))
       = effectQueue (rerender (snd (useEffect demo_env 7 (Some [VNum 1]) first_render)))"
  by (simp add: useEffect_def prev_deps_def hook_eval demo_env_def)

text \<open>
  C5, amended.  Whenever \<open>useEffect\<close> returns normally, the effect is queued if and
  only if the dependency list is omitted, or the slot has no hook from a previous
  render, or some position \<open>i\<close> of the new list has \<open>D_{k+1}[i]\<close> not identical to
  \<open>D_k[i]\<close> (positions of the old list past the end of the new one are not compared).
  When the effect is not queued, the queue is unchanged and the new hook object
  carries the previous cleanup reference.
\<close>

theorem useEffect_queues_iff_fires:
  assumes "fst (useEffect E effect deps s) = Inr ()"
  shows "effectQueue (snd (useEffect E effect deps s))
           = (if fires s deps
              then effectQueue s @ [EffectThunk (length (hookObjs s)) effect]
              else effectQueue s)
         \<and> (\<not> fires s deps \<longrightarrow>
              getHook (snd (useEffect E effect deps s)) (length (hookObjs s))
                = EffectHook effect deps (old_cleanup s (oldHook s)))"
proof (cases "hasChanged s (oldHook s) deps")
  case (Inl e)
  with assms show ?thesis by (simp add: useEffect_def)
next
  case (Inr b)
  from hasChanged_fires [OF Inr] have b: "b = fires s deps" .
  show ?thesis
  proof (cases "fires s deps")
    case False
    with assms Inr b show ?thesis
      by (auto simp: useEffect_def allocHook_def storeHook_def updFiber_def getHook_def
          getFiber_def Let_def split: option.splits)
  next
    case True
    with assms Inr b show ?thesis
      by (auto simp: useEffect_def allocHook_def storeHook_def updFiber_def getHook_def
          getFiber_def Let_def scheduleEffect_def callFn_def
          split: option.splits fn_outcome.splits prod.splits)
  qed
qed

theorem useEffect_queues_iff_fires_witness:
  "fst (useEffect demo_env 7 (Some [VNum 1, VStr ''a''])
          (rerender (snd (useEffect demo_env 7 (Some [VNum 1, VStr ''a'']) first_render))))
     = Inr ()
   \<and> effectQueue (snd (useEffect demo_env 7 (Some [VNum 1, VStr ''a''])
          (rerender (snd (useEffect demo_env 7 (Some [VNum 1, VStr ''a'']) first_render)))))
       = [EffectThunk 0 7]
   \<and> effectQueue (snd (useEffect demo_env 7 (Some [VNum 2, VStr ''a''])
          (rerender (snd (useEffect demo_env 7 (Some [VNum 1, VStr ''a'']) first_render)))))
       = [EffectThunk 0 7, EffectThunk 1 7]"
proof -
  let ?r = "rerender (snd (useEffect demo_env 7 (Some [VNum 1, VStr ''a'']) first_render))"
  have r: "?r = init_state\<lparr>currentFiber := Some 1, hookIndex := 0,
                  effectQueue := [EffectThunk 0 7], pendingFlushEffects := 1,
                  fibers := [(component_fiber None)\<lparr>hooks := Some [Some 0]\<rparr>,
                             (component_fiber (Some 0))\<lparr>hooks := Some []\<rparr>],
                  hookObjs := [EffectHook 7 (Some [VNum 1, VStr ''a'']) None]\<rparr>"
    by (simp add: useEffect_def hook_eval)
  have same: "fst (useEffect demo_env 7 (Some [VNum 1, VStr ''a'']) ?r) = Inr ()"
    unfolding r by (simp add: useEffect_def hook_eval)
  have other: "fst (useEffect demo_env 7 (Some [VNum 2, VStr ''a'']) ?r) = Inr ()"
    unfolding r by (simp add: useEffect_def hook_eval)
  have f1: "\<not> fires ?r (Some [VNum 1, VStr ''a''])"
    unfolding r
    by (simp add: fires_def deps_differ_def prev_deps_def hook_eval less_Suc_eq)
  have "[VNum 2, VStr ''a''] ! 0 \<noteq> array_get [VNum 1, VStr ''a''] 0"
    by (simp add: array_get_def)
  then have "deps_differ [VNum 2, VStr ''a''] [VNum 1, VStr ''a'']"
    unfolding deps_differ_def by (intro exI [of _ 0]) simp
  then have f2: "fires ?r (Some [VNum 2, VStr ''a''])"
    unfolding r by (simp add: fires_def prev_deps_def hook_eval)
  have q: "effectQueue ?r = [EffectThunk 0 7]" "length (hookObjs ?r) = 1"
    unfolding r by simp_all
  from useEffect_queues_iff_fires [OF same] useEffect_queues_iff_fires [OF other]
    same f1 f2 q
  show ?thesis by simp
qed

section \<open>Properties of the effect queue\<close>

fun thunk_fn :: "thunk \<Rightarrow> nat" where
  "thunk_fn (EffectThunk h f) = f"

text \<open>What \<open>console.error\<close> receives for a queued effect: one entry if the effect
  function throws, none otherwise.\<close>

definition effect_error :: "env \<Rightarrow> thunk \<Rightarrow> (string \<times> exn) list" where
  "effect_error E t =
     (case userFn E (thunk_fn t) of
        Throws v \<Rightarrow> [(''Effect error:'', Thrown v)]
      | Returns v \<Rightarrow> [])"

text \<open>The part of the state that the scheduler and the reconciler work on.\<close>

definition render_state ::
  "state \<Rightarrow> task list \<times> bool \<times> addr option \<times> addr option \<times> addr option \<times> addr list option
     \<times> fiber list \<times> host_call list \<times> nat"
where
  "render_state s =
     (taskQueue s, isSchedulerRunning s, wipRoot s, currentRoot s, nextUnitOfWork s,
      deletions s, fibers s, hostLog s, pendingFlushWork s)"

text \<open>A component with one effect and no dependency list; the effect returns a
  cleanup, and the cleanup throws.  \<open>boom_mount\<close> is the state after the mount and
  its effects, \<open>boom_update\<close> the state after a re-render has been requested and the
  event loop has taken its turn.\<close>

definition boom_env :: env where
  "boom_env = \<lparr>component = (\<lambda>c p. UseEffect 7 None (Return (Element (Host ''p'') [] []))),
     userFn = (\<lambda>f. if f = 7 then Returns (VFun 8) else Throws (VStr ''boom'')),
     userTask = (\<lambda>u. CbReturns NotCallable), now = (\<lambda>n. of_nat n), hasWindow = True\<rparr>"

definition boom_mount :: "state option" where
  "boom_mount =
     turn boom_env 20 (render boom_env (Element (Comp 0) [] []) (Container 0) init_state)"

definition boom_update :: "state option" where
  "boom_update = Option.bind boom_mount (\<lambda>s. turn boom_env 20 (scheduleUpdate boom_env s))"

lemma tryThunk_logs:
  "callLog (tryThunk E t s) = callLog s @ [thunk_fn t]
   \<and> consoleLog (tryThunk E t s) = consoleLog s @ effect_error E t
   \<and> effectQueue (tryThunk E t s) = effectQueue s
   \<and> render_state (tryThunk E t s) = render_state s"
  by (cases t; cases "userFn E (thunk_fn t)")
     (auto simp: tryThunk_def callFn_def setHook_def effect_error_def render_state_def
           split: jsval.splits)

lemma flushEffects_queue:
  "effectQueue s = q \<Longrightarrow>
     effectQueue (flushEffects E s) = []
     \<and> callLog (flushEffects E s) = callLog s @ map thunk_fn q
     \<and> consoleLog (flushEffects E s) = consoleLog s @ concat (map (effect_error E) q)
     \<and> render_state (flushEffects E s) = render_state s"
proof (induction q arbitrary: s)
  case Nil
  then show ?case by (simp add: flushEffects.simps [of E s])
next
  case (Cons t rest)
  let ?s1 = "tryThunk E t (s\<lparr>effectQueue := rest\<rparr>)"
  have q1: "effectQueue ?s1 = rest" by (simp add: tryThunk_logs)
  have step: "flushEffects E s = flushEffects E ?s1"
    using Cons.prems by (simp add: flushEffects.simps [of E s])
  have rs: "render_state (s\<lparr>effectQueue := rest\<rparr>) = render_state s"
    by (simp add: render_state_def)
  from Cons.IH [OF q1] show ?case
    unfolding step using Cons.prems by (simp add: tryThunk_logs rs)
qed

text \<open>
  C9, as stated, fails for a cleanup.  The cleanup that an effect installed is called
  by \<open>useEffect\<close> during the next render of the component, outside the guard of
  \<open>flushEffects\<close>.  When it throws, the exception leaves the component body and the
  work loop and reaches the scheduler's handler: the console shows a scheduler
  error, the render is never committed (the work-in-progress root and the next-unit
  pointer stay where they were), and the effect of that render (function 7) is never
  queued or run again.
\<close>

theorem cleanup_throw_counterexample:
  "map_option (\<lambda>s. (consoleLog s, callLog s, effectQueue s)) boom_mount
     = Some ([], [7], [])
   \<and> map_option (\<lambda>s. (consoleLog s, callLog s, effectQueue s, currentRoot s, wipRoot s,
                       nextUnitOfWork s, hostLog s)) boom_update
     = Some ([(''Scheduler error:'', Thrown (VStr ''boom''))], [7, 8], [], Some 0, Some 3,
             Some 4, [CreateElement ''p'' (Created 0), AppendChild (Container 0) (Created 0)])"
  by code_simp

text \<open>
  C9, amended.  \<open>flushEffects\<close> calls every queued effect, in queue order, whatever
  the others do: an effect that throws is caught and logged on its own (one
  \<open>Effect error:\<close> entry per throwing effect, in order), the queue ends empty, and
  nothing that the scheduler or the reconciler works on is changed, so later renders
  are not affected.
\<close>

theorem flushEffects_isolates_each_effect:
  "effectQueue (flushEffects E s) = []
   \<and> callLog (flushEffects E s) = callLog s @ map thunk_fn (effectQueue s)
   \<and> consoleLog (flushEffects E s)
       = consoleLog s @ concat (map (effect_error E) (effectQueue s))
   \<and> render_state (flushEffects E s) = render_state s"
  using flushEffects_queue [of s "effectQueue s" E] by simp

theorem flushEffects_isolates_each_effect_witness:
  "callLog (flushEffects boom_env
      (init_state\<lparr>effectQueue := [EffectThunk 0 7, EffectThunk 0 8, EffectThunk 0 7],
                  hookObjs := [EffectHook 7 None None]\<rparr>)) = [7, 8, 7]
   \<and> consoleLog (flushEffects boom_env
      (init_state\<lparr>effectQueue := [EffectThunk 0 7, EffectThunk 0 8, EffectThunk 0 7],
                  hookObjs := [EffectHook 7 None None]\<rparr>))
       = [(''Effect error:'', Thrown (VStr ''boom''))]"
  using flushEffects_isolates_each_effect [of boom_env
      "init_state\<lparr>effectQueue := [EffectThunk 0 7, EffectThunk 0 8, EffectThunk 0 7],
                  hookObjs := [EffectHook 7 None None]\<rparr>"]
  by (simp add: init_state_def effect_error_def boom_env_def)

section \<open>Mounting a host tree\<close>

lemmas run_defs =
  turn_def flushWork_def runCallback_def workLoop_def commitRoot_def commitEffect_def
  performUnitOfWork_def updateHostComponent_def updateFunctionComponent_def
  reconcileChildren_def reconcileStep_def makeFiber_def markDeletion_def linkFiber_def
  render_def scheduleUpdate_def scheduleCallback_def scheduleWork_def insertTask_def
  shouldYield_def performance_now_def runMicrotasks_def
  createDom_def updateDom_def updateDom_calls_def host_def
  isEvent_def isProperty_def isNew_def isGone_def prop_get_def createTextElement_def
  getFiber_def updFiber_def allocFiber_def init_state_def
  Let_def split_def

text \<open>A clock that stands still until the turn has started its first task and then
  jumps by a second: whatever the work loop does takes far longer than the slice.\<close>

definition late_env :: env where
  "late_env = demo_env\<lparr>now := (\<lambda>n. if n \<le> 2 then 0 else 1000)\<rparr>"

text \<open>
  C2, as stated, fails in the order of the two \<open>appendChild\<close> calls.  Mounting
  \<open>div\<close> with the text child \<open>A\<close> creates the two nodes during the render phase (the
  text node is created empty and then receives its \<open>nodeValue\<close>); the commit walks the
  new tree parent first, so the \<open>div\<close> is appended to the container before the text
  is appended to the \<open>div\<close>.
\<close>

theorem mount_append_order_counterexample:
  "map_option hostLog
     (turn demo_env 8
        (render demo_env (Element (Host ''div'') [] [createTextElement (VStr ''A'')])
           (Container 0) init_state))
     = Some [CreateElement ''div'' (Created 0), CreateTextNode [] (Created 1),
             SetProperty (Created 1) ''nodeValue'' (VStr ''A''),
             AppendChild (Container 0) (Created 0), AppendChild (Created 0) (Created 1)]
   \<and> map_option hostLog
     (turn demo_env 8
        (render demo_env (Element (Host ''div'') [] [createTextElement (VStr ''A'')])
           (Container 0) init_state))
     \<noteq> Some [CreateElement ''div'' (Created 0), CreateTextNode [] (Created 1),
             SetProperty (Created 1) ''nodeValue'' (VStr ''A''),
             AppendChild (Created 0) (Created 1), AppendChild (Container 0) (Created 0)]"
  by code_simp

text \<open>
  C2, amended.  Mounting a host element with one text child into a container, on a
  fresh library state, makes exactly these host calls in this order once the event
  loop has taken one turn: create the element, create the text node and set its
  value, append the element to the container, append the text node to the element.
  (The turn must get to run its task: the clock has not used up the slice between
  the start of the turn and the first check.)
\<close>

theorem mount_host_calls:
  assumes "tag \<noteq> ''TEXT_ELEMENT''" and "v \<noteq> VUndefined"
    and "now E 2 - now E 1 < TIME_SLICE"
  shows "map_option hostLog
           (turn E (Suc (Suc (Suc (Suc (Suc (Suc (Suc (Suc fuel))))))))
              (render E (Element (Host tag) [] [createTextElement v]) c init_state))
         = Some [CreateElement tag (Created 0), CreateTextNode [] (Created 1),
                 SetProperty (Created 1) ''nodeValue'' v,
                 AppendChild c (Created 0), AppendChild (Created 0) (Created 1)]"
proof -
  have clk: "\<not> TIME_SLICE \<le> now E (Suc (Suc 0)) - now E (Suc 0)"
    using assms(3) by (simp add: numeral_2_eq_2)
  show ?thesis
    using assms(1,2) clk by (simp add: run_defs)
qed

theorem mount_host_calls_witness:
  "map_option hostLog
     (turn demo_env (Suc (Suc (Suc (Suc (Suc (Suc (Suc (Suc 0))))))))
        (render demo_env (Element (Host ''div'') [] [createTextElement (VStr ''A'')])
           (Container 0) init_state))
     = Some [CreateElement ''div'' (Created 0), CreateTextNode [] (Created 1),
             SetProperty (Created 1) ''nodeValue'' (VStr ''A''),
             AppendChild (Container 0) (Created 0), AppendChild (Created 0) (Created 1)]"
proof -
  have 1: "''div'' \<noteq> ''TEXT_ELEMENT''" by simp
  have 2: "VStr ''A'' \<noteq> VUndefined" by simp
  have 3: "now demo_env 2 - now demo_env 1 < TIME_SLICE"
    by (simp add: demo_env_def TIME_SLICE_def)
  from mount_host_calls [OF 1 2 3] show ?thesis .
qed

section \<open>The work loop and the time slice\<close>

text \<open>The loop over the units returns normally only with the null pointer.\<close>

lemma workLoop_units_runs_to_null:
  "workLoop_units E fuel s = Some (Inr u, s') \<Longrightarrow> nextUnitOfWork s' = None"
proof (induction fuel arbitrary: s)
  case 0
  then show ?case by simp
next
  case (Suc fuel)
  then show ?case
    by (auto split: option.splits prod.splits sum.splits)
qed

text \<open>
  C1 does not hold of the code.  \<open>workLoop\<close> never reads the clock and has no exit
  between two units: once the scheduler has started it, it performs every unit and
  commits, all in the same turn.  Here the clock jumps by a second right after the
  turn has started the task; the mount of \<open>div\<close> with a text child is nevertheless
  rendered (three units) and committed within that one turn: the next-unit pointer is
  null, the tree is current, the host has received all five calls, the clock was read
  three times in all (on scheduling, at the start of the turn, before the task) and
  \<open>flushWork\<close> was not posted again.
\<close>

theorem workLoop_ignores_time_slice:
  "map_option (\<lambda>s. (nextUnitOfWork s, wipRoot s, currentRoot s, hostLog s, clockReads s,
                     taskLog s, pendingFlushWork s))
     (turn late_env 8
        (render late_env (Element (Host ''div'') [] [createTextElement (VStr ''A'')])
           (Container 0) init_state))
   = Some (None, None, Some 0,
           [CreateElement ''div'' (Created 0), CreateTextNode [] (Created 1),
            SetProperty (Created 1) ''nodeValue'' (VStr ''A''),
            AppendChild (Container 0) (Created 0), AppendChild (Created 0) (Created 1)],
           3, [0], 0)"
  by code_simp

section \<open>A component body that throws\<close>

text \<open>What a component body cannot touch: it only calls hooks, and the hooks work on
  the hook objects, the \<open>hooks\<close> arrays, the effect queue and the call log.\<close>

definition outside_hooks ::
  "state \<Rightarrow> (task list \<times> bool \<times> task option) \<times> (addr option \<times> addr option \<times> addr option)
     \<times> (addr list option \<times> host_call list \<times> (string \<times> exn) list)
     \<times> (nat list \<times> nat \<times> nat \<times> nat \<times> nat)"
where
  "outside_hooks s =
     ((taskQueue s, isSchedulerRunning s, currentTask s),
      (wipRoot s, currentRoot s, nextUnitOfWork s),
      (deletions s, hostLog s, consoleLog s),
      (taskLog s, nextTid s, clockReads s, pendingFlushWork s, nextDom s))"

text \<open>A component whose body reads a ref and then throws, under a host root.\<close>

definition throw_env :: env where
  "throw_env = demo_env\<lparr>component := (\<lambda>c p. UseRef VNull (\<lambda>r. Throw (VStr ''boom'')))\<rparr>"

definition throw_mount :: "state option" where
  "throw_mount =
     turn throw_env 8
       (render throw_env (Element (Host ''div'') [] [Element (Comp 0) [] []])
          (Container 0) init_state)"

text \<open>The first \<open>k\<close> iterations of the loop of \<open>workLoop\<close>, all of which return: the
  state after them, with the fuel that the loop hands to each unit.\<close>

fun run_units :: "env \<Rightarrow> nat \<Rightarrow> nat \<Rightarrow> state \<Rightarrow> state option" where
  "run_units E fuel 0 s = Some s"
| "run_units E 0 (Suc k) s = None"
| "run_units E (Suc fuel) (Suc k) s =
     (case nextUnitOfWork s of
        None \<Rightarrow> None
      | Some a \<Rightarrow>
          (case performUnitOfWork E fuel a s of
             Some (Inr nxt, s1) \<Rightarrow> run_units E fuel k (s1\<lparr>nextUnitOfWork := nxt\<rparr>)
           | _ \<Rightarrow> None))"

text \<open>The state in which a turn of the event loop calls the callback of the first
  task \<open>t\<close> of the queue: the posted \<open>flushWork\<close> has been taken, the clock has been
  read twice, and the task is off the queue, current and logged.\<close>

definition task_started :: "task \<Rightarrow> state \<Rightarrow> state" where
  "task_started t s =
     s\<lparr>pendingFlushWork := pendingFlushWork s - 1, clockReads := Suc (Suc (clockReads s)),
       taskQueue := tl (taskQueue s), currentTask := Some t, taskLog := taskLog s @ [tid t]\<rparr>"

text \<open>What no unit of the render phase touches: the scheduler's variables, the two
  roots and the console.\<close>

definition outside_render ::
  "state \<Rightarrow> (task list \<times> bool \<times> task option) \<times> (addr option \<times> addr option)
     \<times> (string \<times> exn) list \<times> (nat list \<times> nat \<times> nat \<times> nat)"
where
  "outside_render s =
     ((taskQueue s, isSchedulerRunning s, currentTask s), (wipRoot s, currentRoot s),
      consoleLog s, (taskLog s, nextTid s, clockReads s, pendingFlushWork s))"

lemma outside_hooks_runActions: "outside_hooks (runActions as h s) = outside_hooks s"
  by (induction as arbitrary: s) (simp_all add: setHook_def outside_hooks_def)

lemma outside_hooks_storeHook: "outside_hooks (snd (storeHook h s)) = outside_hooks s"
  by (simp add: storeHook_def updFiber_def outside_hooks_def split: option.splits)

lemma outside_hooks_cong:
  "outside_hooks s1 = outside_hooks s \<Longrightarrow> outside_hooks (snd (storeHook h s1)) = outside_hooks s"
  by (simp add: outside_hooks_storeHook)

lemma outside_hooks_useState: "outside_hooks (snd (useState initial s)) = outside_hooks s"
proof -
  have a: "outside_hooks (snd (allocHook v s)) = outside_hooks s" for v
    by (simp add: allocHook_def outside_hooks_def)
  show ?thesis
    by (auto simp: useState_def Let_def split_def outside_hooks_runActions
          outside_hooks_storeHook a [unfolded allocHook_def, simplified] allocHook_def
          split: option.splits prod.splits sum.splits
          intro!: outside_hooks_cong [THEN trans])
qed

lemma outside_hooks_useRef: "outside_hooks (snd (useRef initialValue s)) = outside_hooks s"
  by (auto simp: useRef_def allocHook_def Let_def split_def storeHook_def updFiber_def
        outside_hooks_def split: option.splits prod.splits sum.splits)

lemma outside_hooks_useEffect: "outside_hooks (snd (useEffect E effect deps s)) = outside_hooks s"
  by (auto simp: useEffect_def allocHook_def Let_def split_def storeHook_def updFiber_def
        scheduleEffect_def callFn_def outside_hooks_def
        split: option.splits prod.splits sum.splits fn_outcome.splits)

lemma outside_hooks_runProg: "outside_hooks (snd (runProg E p s)) = outside_hooks s"
proof (induction p arbitrary: s)
  case (Return el)
  then show ?case by simp
next
  case (Throw v)
  then show ?case by simp
next
  case (UseState initial k)
  show ?case
  proof (cases "useState initial s")
    case (Pair r s1)
    with outside_hooks_useState [of initial s] have f: "outside_hooks s1 = outside_hooks s"
      by simp
    show ?thesis
    proof (cases r)
      case (Inl e)
      with Pair f show ?thesis by simp
    next
      case (Inr vh)
      obtain v h where vh: "vh = (v, h)" by (cases vh)
      have "k v h \<in> range (\<lambda>x. k v x)" by blast
      moreover have "k v \<in> range k" by blast
      ultimately have "outside_hooks (snd (runProg E (k v h) s1)) = outside_hooks s1"
        by (rule UseState.IH [rotated])
      with Pair Inr vh f show ?thesis by simp
    qed
  qed
next
  case (UseEffect effect deps p)
  show ?case
  proof (cases "useEffect E effect deps s")
    case (Pair r s1)
    with outside_hooks_useEffect [of E effect deps s] have f: "outside_hooks s1 = outside_hooks s"
      by simp
    with Pair UseEffect.IH [of s1] show ?thesis by (cases r) simp_all
  qed
next
  case (UseRef initialValue k)
  show ?case
  proof (cases "useRef initialValue s")
    case (Pair r s1)
    with outside_hooks_useRef [of initialValue s] have f: "outside_hooks s1 = outside_hooks s"
      by simp
    show ?thesis
    proof (cases r)
      case (Inl e)
      with Pair f show ?thesis by simp
    next
      case (Inr h)
      have "k h \<in> range k" by blast
      then have "outside_hooks (snd (runProg E (k h) s1)) = outside_hooks s1"
        by (rule UseRef.IH)
      with Pair Inr f show ?thesis by simp
    qed
  qed
qed

lemma props_setCurrentFiber: "props (getFiber (setCurrentFiber a s) a) = props (getFiber s a)"
  by (cases "a < length (fibers s)")
     (simp_all add: setCurrentFiber_def getFiber_def updFiber_def Let_def list_update_beyond)

lemma outside_hooks_setCurrentFiber: "outside_hooks (setCurrentFiber a s) = outside_hooks s"
  by (simp add: setCurrentFiber_def updFiber_def outside_hooks_def Let_def)

lemma component_unit_throws:
  assumes "ftype (getFiber s a) = Some (Comp c)"
    and "fst (runProg E (component E c (props (getFiber s a))) (setCurrentFiber a s)) = Inl e"
  shows "\<exists>s'. performUnitOfWork E fuel a s = Some (Inl e, s')
              \<and> outside_hooks s' = outside_hooks s"
proof -
  let ?s1 = "setCurrentFiber a s"
  from assms(2) obtain s2
    where r: "runProg E (component E c (props (getFiber s a))) ?s1 = (Inl e, s2)"
    by (cases "runProg E (component E c (props (getFiber s a))) ?s1") simp
  from outside_hooks_runProg [of E "component E c (props (getFiber s a))" ?s1] r
  have "outside_hooks s2 = outside_hooks s"
    by (simp add: outside_hooks_setCurrentFiber)
  moreover have "performUnitOfWork E fuel a s = Some (Inl e, s2)"
    using assms(1) r
    by (simp add: performUnitOfWork_def updateFunctionComponent_def props_setCurrentFiber)
  ultimately show ?thesis by blast
qed

lemma outside_render_tree: "outside_tree s' = outside_tree s \<Longrightarrow> outside_render s' = outside_render s"
  by (drule arg_cong [where f = outside_render])
     (simp add: outside_tree_def outside_render_def)

lemma outside_render_hooks:
  "outside_hooks s' = outside_hooks s \<Longrightarrow> outside_render s' = outside_render s"
  by (simp add: outside_hooks_def outside_render_def)

lemma outside_render_updateHostComponent:
  assumes "updateHostComponent fuel a s = Some (r, s')"
  shows "outside_render s' = outside_render s"
proof -
  let ?s1 = "if fdom (getFiber s a) = None
             then (let (d, s') = createDom (getFiber s a) s
                   in updFiber a (\<lambda>f. f\<lparr>fdom := Some d\<rparr>) s')
             else s"
  have h1: "outside_render ?s1 = outside_render s"
    by (simp add: createDom_def updateDom_def host_def updFiber_def Let_def split_def
          outside_render_def)
  from assms
  have "reconcileChildren fuel a (children (props (getFiber ?s1 a))) ?s1 = Some (r, s')"
    by (simp add: updateHostComponent_def Let_def)
  from outside_tree_reconcileChildren [OF this] have "outside_render s' = outside_render ?s1"
    by (rule outside_render_tree)
  with h1 show ?thesis by simp
qed

lemma outside_render_updateFunctionComponent:
  assumes "updateFunctionComponent E fuel a c s = Some (r, s')"
  shows "outside_render s' = outside_render s"
proof -
  let ?s1 = "setCurrentFiber a s"
  let ?p = "component E c (props (getFiber ?s1 a))"
  obtain x s2 where run: "runProg E ?p ?s1 = (x, s2)" by (cases "runProg E ?p ?s1")
  from outside_hooks_runProg [of E ?p ?s1] run
  have "outside_hooks s2 = outside_hooks s" by (simp add: outside_hooks_setCurrentFiber)
  then have f: "outside_render s2 = outside_render s" by (rule outside_render_hooks)
  show ?thesis
  proof (cases x)
    case (Inl e)
    with assms run f show ?thesis by (simp add: updateFunctionComponent_def Let_def)
  next
    case (Inr el)
    with assms run have "reconcileChildren fuel a [el] s2 = Some (r, s')"
      by (simp add: updateFunctionComponent_def Let_def)
    from outside_tree_reconcileChildren [OF this] have "outside_render s' = outside_render s2"
      by (rule outside_render_tree)
    with f show ?thesis by simp
  qed
qed

lemma outside_render_performUnitOfWork:
  assumes "performUnitOfWork E fuel a s = Some (r, s')"
  shows "outside_render s' = outside_render s"
proof -
  let ?u = "case ftype (getFiber s a) of
              Some (Comp c) \<Rightarrow> updateFunctionComponent E fuel a c s
            | _ \<Rightarrow> updateHostComponent fuel a s"
  from assms obtain r1 where u: "?u = Some (r1, s')"
    unfolding performUnitOfWork_def
    by (cases ?u) (auto split: sum.splits prod.splits option.splits)
  show ?thesis
  proof (cases "ftype (getFiber s a)")
    case None
    with u show ?thesis by (simp add: outside_render_updateHostComponent)
  next
    case (Some ty)
    with u show ?thesis
      by (cases ty)
         (simp_all add: outside_render_updateHostComponent outside_render_updateFunctionComponent)
  qed
qed

lemma outside_render_run_units:
  "run_units E fuel k s = Some sk \<Longrightarrow> outside_render sk = outside_render s"
proof (induction E fuel k s rule: run_units.induct)
  case (1 E fuel s)
  then show ?case by simp
next
  case (2 E k s)
  then show ?case by simp
next
  case (3 E fuel k s)
  from "3.prems" obtain a nxt s1 where a: "nextUnitOfWork s = Some a"
    and p: "performUnitOfWork E fuel a s = Some (Inr nxt, s1)"
    and rest: "run_units E fuel k (s1\<lparr>nextUnitOfWork := nxt\<rparr>) = Some sk"
    by (auto split: option.splits sum.splits prod.splits)
  from "3.IH" [OF a p refl refl rest]
  have "outside_render sk = outside_render (s1\<lparr>nextUnitOfWork := nxt\<rparr>)" .
  also have "\<dots> = outside_render s1" by (simp add: outside_render_def)
  also from p have "\<dots> = outside_render s" by (rule outside_render_performUnitOfWork)
  finally show ?case .
qed

lemma run_units_workLoop_units:
  "run_units E (k + f) k s = Some sk \<Longrightarrow> workLoop_units E (k + f) s = workLoop_units E f sk"
proof (induction k arbitrary: s)
  case 0
  then show ?case by simp
next
  case (Suc k)
  from Suc.prems obtain a nxt s1 where a: "nextUnitOfWork s = Some a"
    and p: "performUnitOfWork E (k + f) a s = Some (Inr nxt, s1)"
    and rest: "run_units E (k + f) k (s1\<lparr>nextUnitOfWork := nxt\<rparr>) = Some sk"
    by (auto split: option.splits sum.splits prod.splits)
  from Suc.IH [OF rest] a p show ?case by simp
qed

text \<open>The microtasks of a turn leave the scheduler and the reconciler alone; they can
  only add to the console.\<close>

lemma flushEffects_iterated:
  "render_state ((flushEffects E ^^ n) s) = render_state s
   \<and> (\<exists>later. consoleLog ((flushEffects E ^^ n) s) = consoleLog s @ later)"
proof (induction n)
  case 0
  then show ?case by simp
next
  case (Suc n)
  let ?s1 = "(flushEffects E ^^ n) s"
  from flushEffects_queue [of ?s1 "effectQueue ?s1" E]
  have "render_state (flushEffects E ?s1) = render_state ?s1"
    and "consoleLog (flushEffects E ?s1)
           = consoleLog ?s1 @ concat (map (effect_error E) (effectQueue ?s1))"
    by simp_all
  with Suc.IH show ?case by auto
qed

lemma runMicrotasks_frame:
  "render_state (runMicrotasks E s) = render_state s
   \<and> (\<exists>later. consoleLog (runMicrotasks E s) = consoleLog s @ later)"
  using flushEffects_iterated [where E = E and n = "pendingFlushEffects s" and s = s]
  by (simp add: runMicrotasks_def render_state_def)

text \<open>
  C8, as stated, fails in two of its three parts.  A \<open>div\<close> with a component child
  whose body throws is mounted: the exception is caught by \<open>flushWork\<close> and written
  to the console, so it never reaches the caller of \<open>render\<close>; the work-in-progress
  root is still set and the next-unit pointer still points at the component's fiber.
  Nothing was committed: no tree is current and the only host call is the creation
  of the \<open>div\<close> during the render phase.
\<close>

theorem throwing_component_counterexample:
  "map_option (\<lambda>s. (consoleLog s, wipRoot s, nextUnitOfWork s, currentRoot s, hostLog s))
     throw_mount
   = Some ([(''Scheduler error:'', Thrown (VStr ''boom''))], Some 0, Some 2, None,
           [CreateElement ''div'' (Created 0)])"
  by code_simp

text \<open>
  C8, amended.  A turn of the event loop starts the \<open>workLoop\<close> task at the head of
  the queue; the first \<open>k\<close> units of the render complete, and the next unit is a
  component whose body, called in the state then reached, throws \<open>e\<close>.  Then the
  turn returns normally: the exception is caught by \<open>flushWork\<close> and written to the
  console as a scheduler error, so it does not reach the caller that triggered the
  render.  Nothing is committed: the current root is the one from before the turn
  and the host has received the calls of the \<open>k\<close> completed render units only.  The
  work-in-progress tree is not discarded: the work-in-progress root is kept and the
  next-unit pointer stays at the component's fiber.  The task is off the queue and
  the other tasks stay queued.
\<close>

theorem component_throw_aborts_render_without_commit:
  assumes pend: "0 < pendingFlushWork s"
    and queue: "taskQueue s = t # rest" and cb: "callback t = WorkLoop"
    and clock: "now E (Suc (clockReads s)) - now E (clockReads s) < TIME_SLICE"
    and units: "run_units E (k + Suc fuel) k (task_started t s) = Some sk"
    and nxt: "nextUnitOfWork sk = Some a"
    and ty: "ftype (getFiber sk a) = Some (Comp c)"
    and body: "fst (runProg E (component E c (props (getFiber sk a))) (setCurrentFiber a sk))
                 = Inl e"
  shows "\<exists>s'. turn E (Suc (k + Suc fuel)) s = Some s'
           \<and> (\<exists>later. consoleLog s' = consoleLog s @ [(''Scheduler error:'', e)] @ later)
           \<and> currentRoot s' = currentRoot s \<and> hostLog s' = hostLog sk
           \<and> wipRoot s' = wipRoot s \<and> nextUnitOfWork s' = Some a
           \<and> taskQueue s' = rest"
proof -
  let ?st = "task_started t s"
  from component_unit_throws [OF ty body, of fuel] obtain s2
    where unit: "performUnitOfWork E fuel a sk = Some (Inl e, s2)"
      and f2: "outside_hooks s2 = outside_hooks sk"
    by blast
  have "workLoop_units E (k + Suc fuel) ?st = workLoop_units E (Suc fuel) sk"
    using units by (rule run_units_workLoop_units)
  also have "\<dots> = Some (Inl e, s2)" using nxt unit by simp
  finally have w: "workLoop E (k + Suc fuel) ?st = Some (Inl e, s2)"
    by (simp add: workLoop_def)
  have fk: "outside_render sk = outside_render ?st"
    using units by (rule outside_render_run_units)
  from f2 have fr2: "outside_render s2 = outside_render sk" by (rule outside_render_hooks)
  have st: "?st = (s\<lparr>pendingFlushWork := pendingFlushWork s - 1,
                      clockReads := Suc (Suc (clockReads s)),
                      taskQueue := rest, currentTask := Some t\<rparr>)
                    \<lparr>taskLog := taskLog s @ [tid t]\<rparr>"
    using queue by (simp add: task_started_def)
  have loop: "flushLoop E (Suc (k + Suc fuel)) (now E (clockReads s))
                (s\<lparr>pendingFlushWork := pendingFlushWork s - 1,
                   clockReads := Suc (clockReads s)\<rparr>) = Some (Inl e, s2)"
    using queue cb clock w [unfolded st]
    by (simp add: shouldYield_def performance_now_def runCallback_def not_le [symmetric])
  let ?s4 = "s2\<lparr>consoleLog := consoleLog s2 @ [(''Scheduler error:'', e)], currentTask := None\<rparr>"
  let ?s5 = "if taskQueue ?s4 \<noteq> [] then scheduleWork ?s4 else ?s4\<lparr>isSchedulerRunning := False\<rparr>"
  have fw: "flushWork E (Suc (k + Suc fuel)) (s\<lparr>pendingFlushWork := pendingFlushWork s - 1\<rparr>)
              = Some ?s5"
    using loop by (simp add: flushWork_def performance_now_def)
  have t: "turn E (Suc (k + Suc fuel)) s = Some (runMicrotasks E ?s5)"
    using pend fw by (simp add: turn_def)
  from fr2 fk have o: "outside_render s2 = outside_render ?st" by simp
  from o queue have a2: "consoleLog s2 = consoleLog s" "wipRoot s2 = wipRoot s"
      "currentRoot s2 = currentRoot s" "taskQueue s2 = rest"
    by (simp_all add: outside_render_def task_started_def)
  from f2 nxt have b2: "nextUnitOfWork s2 = Some a" "hostLog s2 = hostLog sk"
    by (simp_all add: outside_hooks_def)
  have s5: "consoleLog ?s5 = consoleLog s @ [(''Scheduler error:'', e)]"
      "render_state ?s5
         = (rest, isSchedulerRunning ?s5, wipRoot s, currentRoot s, Some a, deletions s2,
            fibers s2, hostLog sk, pendingFlushWork ?s5)"
    using a2 b2 by (simp_all add: scheduleWork_def render_state_def)
  from runMicrotasks_frame [of E ?s5] obtain later where
    m: "render_state (runMicrotasks E ?s5) = render_state ?s5"
      "consoleLog (runMicrotasks E ?s5) = consoleLog ?s5 @ later"
    by blast
  from m(1) [unfolded s5(2)] have
    "currentRoot (runMicrotasks E ?s5) = currentRoot s"
    "hostLog (runMicrotasks E ?s5) = hostLog sk"
    "wipRoot (runMicrotasks E ?s5) = wipRoot s"
    "nextUnitOfWork (runMicrotasks E ?s5) = Some a"
    "taskQueue (runMicrotasks E ?s5) = rest"
    by (simp_all add: render_state_def)
  moreover from m(2) s5(1)
  have "\<exists>later. consoleLog (runMicrotasks E ?s5)
                  = consoleLog s @ [(''Scheduler error:'', e)] @ later"
    by simp
  ultimately show ?thesis using t by blast
qed

theorem component_throw_aborts_render_witness:
  "\<exists>s'. throw_mount = Some s'
      \<and> (\<exists>later. consoleLog s' = [(''Scheduler error:'', Thrown (VStr ''boom''))] @ later)
      \<and> currentRoot s' = None \<and> hostLog s' = [CreateElement ''div'' (Created 0)]
      \<and> wipRoot s' = Some 0 \<and> nextUnitOfWork s' = Some 2 \<and> taskQueue s' = []"
proof -
  let ?s = "render throw_env (Element (Host ''div'') [] [Element (Comp 0) [] []])
              (Container 0) init_state"
  let ?t = "\<lparr>tid = 0, callback = WorkLoop, priority = 0, startTime = 0\<rparr>"
  have pre: "pendingFlushWork ?s = 1 \<and> taskQueue ?s = [?t] \<and> clockReads ?s = 1
             \<and> consoleLog ?s = [] \<and> currentRoot ?s = None \<and> wipRoot ?s = Some 0
             \<and> (case run_units throw_env (2 + Suc 4) 2 (task_started ?t ?s) of
                  None \<Rightarrow> False
                | Some sk \<Rightarrow>
                    nextUnitOfWork sk = Some 2 \<and> ftype (getFiber sk 2) = Some (Comp 0)
                    \<and> fst (runProg throw_env (component throw_env 0 (props (getFiber sk 2)))
                              (setCurrentFiber 2 sk)) = Inl (Thrown (VStr ''boom''))
                    \<and> hostLog sk = [CreateElement ''div'' (Created 0)])"
    by code_simp
  then obtain sk where sk: "run_units throw_env (2 + Suc 4) 2 (task_started ?t ?s) = Some sk"
    by (cases "run_units throw_env (2 + Suc 4) 2 (task_started ?t ?s)") simp_all
  from pre [unfolded sk option.case] have
    pend: "0 < pendingFlushWork ?s" and queue: "taskQueue ?s = ?t # []"
    and reads: "clockReads ?s = 1" and console: "consoleLog ?s = []"
    and roots: "currentRoot ?s = None" "wipRoot ?s = Some 0"
    and nxt: "nextUnitOfWork sk = Some 2" and ty: "ftype (getFiber sk 2) = Some (Comp 0)"
    and body: "fst (runProg throw_env (component throw_env 0 (props (getFiber sk 2)))
                      (setCurrentFiber 2 sk)) = Inl (Thrown (VStr ''boom''))"
    and hostk: "hostLog sk = [CreateElement ''div'' (Created 0)]"
    by simp_all
  have cb: "callback ?t = WorkLoop" by simp
  have clock: "now throw_env (Suc (clockReads ?s)) - now throw_env (clockReads ?s) < TIME_SLICE"
    unfolding reads by (simp add: throw_env_def demo_env_def TIME_SLICE_def)
  have fuel: "Suc (2 + Suc 4) = 8" by simp
  from component_throw_aborts_render_without_commit [OF pend queue cb clock sk nxt ty body]
  show ?thesis
    unfolding fuel throw_mount_def [symmetric] console roots hostk by simp
qed

section \<open>The order in which scheduled tasks run\<close>

text \<open>
  A batch of user tasks, each a callback reference with a priority, scheduled one
  after the other before the event loop takes a turn; and the task objects that these
  calls create on a fresh library state (the \<open>i\<close>-th call reads the clock for the
  \<open>i\<close>-th time).
\<close>

definition schedule_all :: "env \<Rightarrow> (nat \<times> int) list \<Rightarrow> state \<Rightarrow> state" where
  "schedule_all E reqs s =
     foldl (\<lambda>s (u, p). snd (scheduleCallback E (UserCallback u) p s)) s reqs"

definition arrivals :: "env \<Rightarrow> (nat \<times> int) list \<Rightarrow> task list" where
  "arrivals E reqs =
     map (\<lambda>i. \<lparr>tid = i, callback = UserCallback (fst (reqs ! i)), priority = snd (reqs ! i),
               startTime = now E i\<rparr>) [0..<length reqs]"

text \<open>A task that is finished after one call: its callback is a user function that
  throws or returns something that is not a function.\<close>

definition one_shot :: "env \<Rightarrow> task \<Rightarrow> bool" where
  "one_shot E t =
     (case callback t of
        UserCallback u \<Rightarrow> (case userTask E u of CbThrows v \<Rightarrow> True | CbReturns r \<Rightarrow> r = NotCallable)
      | _ \<Rightarrow> False)"

lemma insertTask_index_takeWhile:
  "insertTask_index q t k = k + length (takeWhile (\<lambda>x. priority x \<le> priority t) q)"
  by (induction q arbitrary: k) simp_all

lemma insertTask_takeWhile:
  "insertTask t s
     = s\<lparr>taskQueue := takeWhile (\<lambda>x. priority x \<le> priority t) (taskQueue s) @ [t]
                        @ dropWhile (\<lambda>x. priority x \<le> priority t) (taskQueue s)\<rparr>"
  by (simp add: insertTask_def insertTask_index_takeWhile
        takeWhile_eq_take [symmetric] dropWhile_eq_drop [symmetric])

lemma dropWhile_sorted_greater:
  "sorted (map f q) \<Longrightarrow> x \<in> set (dropWhile (\<lambda>x. f x \<le> k) q) \<Longrightarrow> k < (f x :: int)"
proof (induction q)
  case Nil
  then show ?case by simp
next
  case (Cons y q)
  then show ?case by (auto split: if_splits)
qed

lemma insert_after_equal_is_stable_sort:
  fixes f :: "'a \<Rightarrow> int"
  assumes "q = sort_key f xs"
  shows "takeWhile (\<lambda>x. f x \<le> f t) q @ [t] @ dropWhile (\<lambda>x. f x \<le> f t) q
           = sort_key f (xs @ [t])"
proof -
  let ?P = "\<lambda>x. f x \<le> f t"
  let ?ys = "takeWhile ?P q @ [t] @ dropWhile ?P q"
  have srt: "sorted (map f q)" using assms by simp
  have gt: "\<And>x. x \<in> set (dropWhile ?P q) \<Longrightarrow> f t < f x"
    using dropWhile_sorted_greater [OF srt] by blast
  have le: "\<And>x. x \<in> set (takeWhile ?P q) \<Longrightarrow> f x \<le> f t"
    by (auto dest: set_takeWhileD)
  have "takeWhile ?P q @ dropWhile ?P q = q" by simp
  then have "mset (takeWhile ?P q) + mset (dropWhile ?P q) = mset q"
    by (metis mset_append)
  then have 1: "mset ?ys = mset (xs @ [t])" using assms by simp
  have s1: "sorted (map f (takeWhile ?P q))"
    using srt by (metis sorted_append map_append takeWhile_dropWhile_id)
  have s2: "sorted (map f (dropWhile ?P q))"
    using srt by (metis sorted_append map_append takeWhile_dropWhile_id)
  have 3: "sorted (map f ?ys)"
    using s1 s2 le gt
    by (auto simp: sorted_append order.strict_implies_order dest!: gt le)
  have 2: "filter (\<lambda>x. f k = f x) ?ys = filter (\<lambda>x. f k = f x) (xs @ [t])" for k
  proof -
    have st: "filter (\<lambda>x. f k = f x) q = filter (\<lambda>x. f k = f x) xs"
      using sort_key_stable [of f "f k" xs] assms by (simp add: eq_commute)
    have split: "filter (\<lambda>x. f k = f x) q
        = filter (\<lambda>x. f k = f x) (takeWhile ?P q) @ filter (\<lambda>x. f k = f x) (dropWhile ?P q)"
      by (metis filter_append takeWhile_dropWhile_id)
    show ?thesis
    proof (cases "f k = f t")
      case True
      have "\<And>x. x \<in> set (dropWhile ?P q) \<Longrightarrow> f k \<noteq> f x"
        using gt True by fastforce
      then have "filter (\<lambda>x. f k = f x) (dropWhile ?P q) = []"
        by (simp add: filter_empty_conv)
      with split st True show ?thesis by simp
    next
      case False
      with split st show ?thesis by simp
    qed
  qed
  from properties_for_sort_key [OF 1 2 3] show ?thesis by simp
qed

lemma arrivals_snoc:
  "arrivals E (reqs @ [(u, p)])
     = arrivals E reqs
       @ [\<lparr>tid = length reqs, callback = UserCallback u, priority = p,
           startTime = now E (length reqs)\<rparr>]"
  by (simp add: arrivals_def nth_append)

text \<open>The scheduler's own variables after the batch has been scheduled.\<close>

lemma schedule_all_init:
  "taskQueue (schedule_all E reqs init_state) = sort_key priority (arrivals E reqs)
   \<and> nextTid (schedule_all E reqs init_state) = length reqs
   \<and> clockReads (schedule_all E reqs init_state) = length reqs
   \<and> taskLog (schedule_all E reqs init_state) = []
   \<and> pendingFlushEffects (schedule_all E reqs init_state) = 0
   \<and> isSchedulerRunning (schedule_all E reqs init_state) = (reqs \<noteq> [])
   \<and> pendingFlushWork (schedule_all E reqs init_state) = (if reqs = [] then 0 else 1)"
proof (induction reqs rule: rev_induct)
  case Nil
  then show ?case by (simp add: schedule_all_def init_state_def arrivals_def)
next
  case (snoc r reqs)
  obtain u p where r: "r = (u, p)" by (cases r)
  let ?s = "schedule_all E reqs init_state"
  let ?t = "\<lparr>tid = length reqs, callback = UserCallback u, priority = p,
             startTime = now E (length reqs)\<rparr>"
  have step: "schedule_all E (reqs @ [(u, p)]) init_state
                = snd (scheduleCallback E (UserCallback u) p ?s)"
    by (simp add: schedule_all_def)
  have q: "takeWhile (\<lambda>x. priority x \<le> p) (taskQueue ?s) @ [?t]
             @ dropWhile (\<lambda>x. priority x \<le> p) (taskQueue ?s)
           = sort_key priority (arrivals E reqs @ [?t])"
    using insert_after_equal_is_stable_sort [of "taskQueue ?s" priority "arrivals E reqs" ?t]
      snoc.IH by simp
  have nil: "schedule_all E [] init_state = init_state" by (simp add: schedule_all_def)
  show ?case
    unfolding r step arrivals_snoc
    using snoc.IH q
    by (cases "reqs = []")
       (simp_all add: scheduleCallback_def performance_now_def Let_def split_def
          insertTask_takeWhile scheduleWork_def nil init_state_def arrivals_def)
qed

text \<open>One run of the loop of \<open>flushWork\<close> over one-shot tasks: what has run and what
  is still queued is, together, what was queued, in the same order; and the loop
  makes progress when its first check of the clock lets it.\<close>

lemma flushLoop_one_shot:
  assumes "\<forall>t \<in> set (taskQueue s). one_shot E t" and "length (taskQueue s) < fuel"
  shows "\<exists>r s'. flushLoop E fuel start s = Some (r, s')
           \<and> taskLog s' @ map tid (taskQueue s') = taskLog s @ map tid (taskQueue s)
           \<and> (\<forall>t \<in> set (taskQueue s'). one_shot E t)
           \<and> length (taskQueue s') \<le> length (taskQueue s)
           \<and> (taskQueue s \<noteq> [] \<longrightarrow> now E (clockReads s) - start < TIME_SLICE
                \<longrightarrow> length (taskQueue s') < length (taskQueue s))
           \<and> pendingFlushWork s' = pendingFlushWork s
           \<and> pendingFlushEffects s' = pendingFlushEffects s"
  using assms
proof (induction fuel arbitrary: s)
  case 0
  then show ?case by simp
next
  case (Suc fuel)
  show ?case
  proof (cases "taskQueue s")
    case Nil
    then show ?thesis by simp
  next
    case (Cons t rest)
    show ?thesis
    proof (cases "TIME_SLICE \<le> now E (clockReads s) - start")
      case True
      with Cons Suc.prems show ?thesis
        by (simp add: shouldYield_def performance_now_def)
    next
      case False
      from Cons Suc.prems have os: "one_shot E t" by simp
      then obtain u where u: "callback t = UserCallback u"
        by (auto simp: one_shot_def split: callback.splits)
      let ?s2 = "s\<lparr>clockReads := Suc (clockReads s), taskQueue := rest, currentTask := Some t\<rparr>"
      let ?s3 = "?s2\<lparr>taskLog := taskLog s @ [tid t]\<rparr>"
      show ?thesis
      proof (cases "userTask E u")
        case (CbThrows v)
        with Cons False u Suc.prems show ?thesis
          by (simp add: shouldYield_def performance_now_def runCallback_def)
      next
        case (CbReturns r)
        with os u have r: "r = NotCallable" by (simp add: one_shot_def)
        let ?s4 = "?s3\<lparr>currentTask := None\<rparr>"
        have a: "\<forall>t \<in> set (taskQueue ?s4). one_shot E t" using Cons Suc.prems by simp
        have b: "length (taskQueue ?s4) < fuel" using Cons Suc.prems by simp
        from Suc.IH [OF a b] obtain r' s' where
          IH: "flushLoop E fuel start ?s4 = Some (r', s')"
            "taskLog s' @ map tid (taskQueue s') = taskLog ?s4 @ map tid (taskQueue ?s4)"
            "\<forall>t \<in> set (taskQueue s'). one_shot E t"
            "length (taskQueue s') \<le> length (taskQueue ?s4)"
            "pendingFlushWork s' = pendingFlushWork ?s4"
            "pendingFlushEffects s' = pendingFlushEffects ?s4"
          by blast
        have "flushLoop E (Suc fuel) start s = Some (r', s')"
          using Cons False u CbReturns r IH(1)
          by (simp add: shouldYield_def performance_now_def runCallback_def)
        with IH Cons show ?thesis by simp
      qed
    qed
  qed
qed

text \<open>The invariant of the turns: the tasks are one-shot, no effect is pending, the
  scheduler is armed while tasks are queued, and the log followed by the queue is the
  fixed order \<open>L\<close>.\<close>

definition sched_inv :: "env \<Rightarrow> nat list \<Rightarrow> state \<Rightarrow> bool" where
  "sched_inv E L s =
     ((\<forall>t \<in> set (taskQueue s). one_shot E t)
      \<and> pendingFlushEffects s = 0
      \<and> (taskQueue s \<noteq> [] \<longrightarrow> 0 < pendingFlushWork s)
      \<and> taskLog s @ map tid (taskQueue s) = L)"

lemma turn_one_shot:
  assumes "sched_inv E L s" and "length (taskQueue s) < fuel"
    and "\<forall>n. now E (Suc n) - now E n < TIME_SLICE"
  shows "\<exists>s'. turn E fuel s = Some s' \<and> sched_inv E L s'
           \<and> length (taskQueue s') \<le> length (taskQueue s)
           \<and> (taskQueue s \<noteq> [] \<longrightarrow> length (taskQueue s') < length (taskQueue s))"
proof (cases "pendingFlushWork s = 0")
  case True
  with assms(1) have "taskQueue s = []" by (auto simp: sched_inv_def)
  with True assms(1) show ?thesis by (simp add: turn_def)
next
  case False
  let ?s0 = "s\<lparr>pendingFlushWork := pendingFlushWork s - 1\<rparr>"
  let ?s1 = "?s0\<lparr>clockReads := Suc (clockReads s)\<rparr>"
  have a: "\<forall>t \<in> set (taskQueue ?s1). one_shot E t"
    using assms(1) by (simp add: sched_inv_def)
  have b: "length (taskQueue ?s1) < fuel" using assms(2) by simp
  from flushLoop_one_shot [OF a b, of "now E (clockReads s)"] obtain r s2 where
    L: "flushLoop E fuel (now E (clockReads s)) ?s1 = Some (r, s2)"
      "taskLog s2 @ map tid (taskQueue s2) = taskLog ?s1 @ map tid (taskQueue ?s1)"
      "\<forall>t \<in> set (taskQueue s2). one_shot E t"
      "length (taskQueue s2) \<le> length (taskQueue ?s1)"
      "taskQueue ?s1 \<noteq> [] \<longrightarrow> now E (clockReads ?s1) - now E (clockReads s) < TIME_SLICE
         \<longrightarrow> length (taskQueue s2) < length (taskQueue ?s1)"
      "pendingFlushWork s2 = pendingFlushWork ?s1"
      "pendingFlushEffects s2 = pendingFlushEffects ?s1"
    by blast
  let ?s3 = "(case r of
               Inl e \<Rightarrow> s2\<lparr>consoleLog := consoleLog s2 @ [(''Scheduler error:'', e)]\<rparr>
             | Inr u \<Rightarrow> s2)"
  let ?s4 = "?s3\<lparr>currentTask := None\<rparr>"
  let ?s5 = "if taskQueue ?s4 \<noteq> [] then scheduleWork ?s4 else ?s4\<lparr>isSchedulerRunning := False\<rparr>"
  have fw: "flushWork E fuel ?s0 = Some ?s5"
    using L(1) by (simp add: flushWork_def performance_now_def)
  have s3: "taskQueue ?s3 = taskQueue s2" "taskLog ?s3 = taskLog s2"
    "pendingFlushWork ?s3 = pendingFlushWork s2" "pendingFlushEffects ?s3 = pendingFlushEffects s2"
    by (cases r; simp)+
  have eff: "pendingFlushEffects ?s5 = 0"
    using s3 L(7) assms(1) by (simp add: sched_inv_def scheduleWork_def)
  have t: "turn E fuel s = Some (?s5\<lparr>pendingFlushEffects := 0\<rparr>)"
    using False fw eff by (simp add: turn_def runMicrotasks_def)
  have q5: "taskQueue ?s5 = taskQueue s2" "taskLog ?s5 = taskLog s2"
    using s3 by (simp_all add: scheduleWork_def)
  have arm: "taskQueue ?s5 \<noteq> [] \<longrightarrow> 0 < pendingFlushWork ?s5"
    by (simp add: scheduleWork_def)
  have inv: "sched_inv E L (?s5\<lparr>pendingFlushEffects := 0\<rparr>)"
    using q5 arm L(2,3) assms(1) by (simp add: sched_inv_def)
  have prog: "taskQueue s \<noteq> [] \<longrightarrow> length (taskQueue s2) < length (taskQueue s)"
    using L(5) assms(3) by simp
  from t inv q5 L(4) prog show ?thesis by simp
qed

lemma turns_one_shot:
  assumes "sched_inv E L s" and "length (taskQueue s) < fuel"
    and "\<forall>n. now E (Suc n) - now E n < TIME_SLICE"
    and "length (taskQueue s) \<le> n"
  shows "\<exists>s'. turns E fuel n s = Some s' \<and> sched_inv E L s' \<and> taskQueue s' = []"
  using assms
proof (induction n arbitrary: s)
  case 0
  then show ?case by simp
next
  case (Suc n)
  from turn_one_shot [OF Suc.prems(1,2,3)] obtain s1 where
    s1: "turn E fuel s = Some s1" "sched_inv E L s1"
      "length (taskQueue s1) \<le> length (taskQueue s)"
      "taskQueue s \<noteq> [] \<longrightarrow> length (taskQueue s1) < length (taskQueue s)"
    by blast
  have "length (taskQueue s1) \<le> n"
    using s1(3,4) Suc.prems(4) by (cases "taskQueue s = []") auto
  moreover have "length (taskQueue s1) < fuel" using s1(3) Suc.prems(2) by simp
  ultimately obtain s' where "turns E fuel n s1 = Some s'" "sched_inv E L s'" "taskQueue s' = []"
    using Suc.IH [OF s1(2) _ Suc.prems(3)] by blast
  with s1(1) show ?case by simp
qed

text \<open>
  C4.  User tasks are scheduled in some order with some priorities, each task done
  after one call (it returns no continuation; it may throw), and the event loop then
  takes its turns, each of which gets to start at least one task.  After as many
  turns as there are tasks the queue is empty and the tasks have been called in the
  order of the stable sort of the arrival sequence by priority: ascending priority,
  equal priorities in arrival order.
\<close>

theorem tasks_run_in_priority_then_arrival_order:
  assumes "\<forall>r \<in> set reqs. one_shot E \<lparr>tid = 0, callback = UserCallback (fst r),
                                        priority = snd r, startTime = 0\<rparr>"
    and "\<forall>n. now E (Suc n) - now E n < TIME_SLICE"
    and "length reqs < fuel"
  shows "\<exists>s'. turns E fuel (length reqs) (schedule_all E reqs init_state) = Some s'
           \<and> taskQueue s' = []
           \<and> taskLog s' = map tid (sort_key priority (arrivals E reqs))"
proof -
  let ?s = "schedule_all E reqs init_state"
  let ?L = "map tid (sort_key priority (arrivals E reqs))"
  note A = schedule_all_init [of E reqs]
  have os: "\<forall>t \<in> set (taskQueue ?s). one_shot E t"
  proof
    fix t assume "t \<in> set (taskQueue ?s)"
    with A have "t \<in> set (arrivals E reqs)" by simp
    then obtain i where i: "i < length reqs" and
      t: "t = \<lparr>tid = i, callback = UserCallback (fst (reqs ! i)), priority = snd (reqs ! i),
               startTime = now E i\<rparr>"
      by (auto simp: arrivals_def)
    from i assms(1) have "one_shot E \<lparr>tid = 0, callback = UserCallback (fst (reqs ! i)),
                                       priority = snd (reqs ! i), startTime = 0\<rparr>"
      by simp
    then show "one_shot E t" by (simp add: t one_shot_def)
  qed
  have inv: "sched_inv E ?L ?s"
    using os A by (auto simp: sched_inv_def arrivals_def)
  have len: "length (taskQueue ?s) = length reqs" using A by (simp add: arrivals_def)
  from turns_one_shot [OF inv _ assms(2), of fuel "length reqs"] len assms(3)
  obtain s' where "turns E fuel (length reqs) ?s = Some s'" "sched_inv E ?L s'" "taskQueue s' = []"
    by auto
  then show ?thesis by (auto simp: sched_inv_def)
qed

theorem tasks_run_in_priority_order_witness:
  "\<exists>s'. turns demo_env 4 3
          (schedule_all demo_env [(0, 2), (1, 0), (2, 1)] init_state) = Some s'
        \<and> taskQueue s' = [] \<and> taskLog s' = [1, 2, 0]
        \<and> map (\<lambda>i. snd ([(0 :: nat, 2 :: int), (1, 0), (2, 1)] ! i)) (taskLog s') = [0, 1, 2]"
proof -
  have 1: "\<forall>r \<in> set [(0, 2), (1, 0), (2, 1)].
             one_shot demo_env \<lparr>tid = 0, callback = UserCallback (fst r),
                                priority = snd r, startTime = 0\<rparr>"
    by (simp add: one_shot_def demo_env_def)
  have 2: "\<forall>n. now demo_env (Suc n) - now demo_env n < TIME_SLICE"
    by (simp add: demo_env_def TIME_SLICE_def)
  have 3: "length [(0 :: nat, 2 :: int), (1, 0), (2, 1)] < 4" by simp
  have 4: "map tid (sort_key priority (arrivals demo_env [(0, 2), (1, 0), (2, 1)])) = [1, 2, 0]"
    by (simp add: arrivals_def upt_rec [of 0] upt_rec [of 1] upt_rec [of 2] upt_rec [of 3])
  have 5: "length [(0 :: nat, 2 :: int), (1, 0), (2, 1)] = 3" by simp
  from tasks_run_in_priority_then_arrival_order [OF 1 2 3, unfolded 4 5]
  obtain s' where s': "turns demo_env 4 3
          (schedule_all demo_env [(0, 2), (1, 0), (2, 1)] init_state) = Some s'"
      "taskQueue s' = []" "taskLog s' = [1, 2, 0]"
    by blast
  have "map (\<lambda>i. snd ([(0 :: nat, 2 :: int), (1, 0), (2, 1)] ! i)) [1, 2, 0] = [0, 1, 2]"
    by simp
  with s' show ?thesis by metis
qed

section \<open>Positional reconciliation of a children list\<close>

text \<open>The old fibers of a parent, as the list of addresses that the \<open>sibling\<close> pointers
  lead through, starting at the parent's \<open>child\<close>.\<close>

fun sibling_chain :: "fiber list \<Rightarrow> addr option \<Rightarrow> addr list \<Rightarrow> bool" where
  "sibling_chain F None [] = True"
| "sibling_chain F None (x # xs) = False"
| "sibling_chain F (Some a) [] = False"
| "sibling_chain F (Some a) (x # xs) =
     (a = x \<and> a < length F \<and> sibling_chain F (sibling (F ! a)) xs)"

text \<open>Position \<open>j\<close> holds an old fiber and a new descriptor of the same type.\<close>

definition same_at :: "etype option list \<Rightarrow> element list \<Rightarrow> nat \<Rightarrow> bool" where
  "same_at ts es j = (j < length ts \<and> j < length es \<and> ts ! j = Some (elem_type (es ! j)))"

text \<open>A list item and a list of three items under \<open>ul\<close>; the list is mounted, then
  rendered again without its first item.\<close>

definition li :: "string \<Rightarrow> element" where
  "li name = Element (Host ''li'') [(''id'', VStr name)] []"

definition ul :: "element list \<Rightarrow> element" where
  "ul items = Element (Host ''ul'') [] items"

definition three_then_two :: "state option" where
  "three_then_two =
     Option.bind
       (turn demo_env 10
          (render demo_env (ul [li ''a'', li ''b'', li ''c'']) (Container 0) init_state))
       (\<lambda>s. turn demo_env 10
               (render demo_env (ul [li ''b'', li ''c'']) (Container 0) s))"

text \<open>The same second render, stopped after the unit of the root: the next unit is the
  new fiber of \<open>ul\<close> (fiber 6), whose children are about to be reconciled.\<close>

definition before_list :: "state option" where
  "before_list =
     Option.bind
       (turn demo_env 10
          (render demo_env (ul [li ''a'', li ''b'', li ''c'']) (Container 0) init_state))
       (\<lambda>s. case performUnitOfWork demo_env 10 5
                     (render demo_env (ul [li ''b'', li ''c'']) (Container 0) s) of
               Some (Inr nxt, s1) \<Rightarrow> Some s1
             | _ \<Rightarrow> None)"

text \<open>After the removal of position \<open>p\<close>, position \<open>j\<close> is a shifted position that
  now holds a descriptor of another type than before.\<close>

definition type_changes :: "element list \<Rightarrow> nat \<Rightarrow> nat \<Rightarrow> bool" where
  "type_changes prev p j = (p \<le> j \<and> elem_type (prev ! j) \<noteq> elem_type (prev ! Suc j))"

lemma sibling_chain_bound: "sibling_chain F ob xs \<Longrightarrow> a \<in> set xs \<Longrightarrow> a < length F"
  by (induction F ob xs rule: sibling_chain.induct) auto

lemma sibling_chain_frame:
  "sibling_chain F ob xs \<Longrightarrow> length F \<le> length F' \<Longrightarrow>
   (\<And>a. a \<in> set xs \<Longrightarrow> sibling (F' ! a) = sibling (F ! a)) \<Longrightarrow> sibling_chain F' ob xs"
  by (induction F ob xs rule: sibling_chain.induct) auto

lemma sibling_chain_None: "sibling_chain F ob [] \<longleftrightarrow> ob = None"
  by (cases ob) simp_all

lemma sibling_chain_Cons:
  "sibling_chain F ob (x # xs)
     \<longleftrightarrow> ob = Some x \<and> x < length F \<and> sibling_chain F (sibling (F ! x)) xs"
  by (cases ob) auto

lemma makeFiber_None: "makeFiber w ob None s = (None, s)"
  by (simp add: makeFiber_def split: bool.splits option.splits)

lemma nth_list_update_total:
  "xs[i := y] ! a = (if a = i \<and> i < length xs then y else xs ! a)"
  by (cases "i < length xs") (auto simp: list_update_beyond)

lemma drop_Cons_nth: "drop i xs = y # ys \<Longrightarrow> i < length xs \<and> y = xs ! i"
  by (metis drop_all list.distinct(1) not_le nth_via_drop)

lemma makeFiber_Some:
  "\<exists>f. makeFiber w ob (Some el) s = (Some (length (fibers s)), s\<lparr>fibers := fibers s @ [f]\<rparr>)
       \<and> effectTag f
           = Some (if sameType (map_option (getFiber s) ob) (Some el) then UPDATE else PLACEMENT)"
proof (cases "sameType (map_option (getFiber s) ob) (Some el)")
  case True
  then obtain oa where "ob = Some oa" by (cases ob) simp_all
  with True show ?thesis
    by (intro exI [of _ "\<lparr>ftype = ftype (getFiber s oa), props = elem_props el,
                  fdom = fdom (getFiber s oa), parent = Some w, child = None,
                  sibling = None, alternate = Some oa, effectTag = Some UPDATE,
                  hooks = None\<rparr>"])
       (simp add: makeFiber_def allocFiber_def)
next
  case False
  then show ?thesis
    by (intro exI [of _ "\<lparr>ftype = Some (elem_type el), props = elem_props el,
                  fdom = None, parent = Some w, child = None,
                  sibling = None, alternate = None, effectTag = Some PLACEMENT,
                  hooks = None\<rparr>"])
       (simp add: makeFiber_def allocFiber_def)
qed

lemma markDeletion_eq:
  "deletions s = Some ds \<Longrightarrow>
   markDeletion ob flag s
     = (Inr (),
        case ob of
          None \<Rightarrow> s
        | Some oa \<Rightarrow>
            if flag then s
            else s\<lparr>fibers := (fibers s)[oa := (fibers s ! oa)\<lparr>effectTag := Some DELETION\<rparr>],
                   deletions := Some (ds @ [oa])\<rparr>)"
  by (simp add: markDeletion_def updFiber_def split: option.splits)

lemma linkFiber_eq:
  "index = 0 \<or> el = None \<or> p = Some pa \<Longrightarrow>
   linkFiber w index el p n s
     = (Inr (),
        if index = 0 then s\<lparr>fibers := (fibers s)[w := (fibers s ! w)\<lparr>child := n\<rparr>]\<rparr>
        else if el \<noteq> None then s\<lparr>fibers := (fibers s)[pa := (fibers s ! pa)\<lparr>sibling := n\<rparr>]\<rparr>
        else s)"
  by (auto simp: linkFiber_def updFiber_def)

text \<open>What one iteration does to the old chain, the deletion list and the tags.\<close>

lemma reconcileStep_effects:
  assumes chain: "sibling_chain (fibers s) ob (drop i olds)"
    and dels: "deletions s = Some ds"
    and prev: "0 < i \<and> i < length es \<longrightarrow> (\<exists>pa. p = Some pa \<and> pa \<notin> set (drop i olds))"
    and len: "length ts = length olds"
    and ty: "i < length olds \<longrightarrow> ftype (fibers s ! (olds ! i)) = ts ! i"
  shows "\<exists>ob' p' s3. reconcileStep w es i ob p s = (Inr (ob', p'), s3)
     \<and> sibling_chain (fibers s3) ob' (drop (Suc i) olds)
     \<and> (\<forall>a < length (fibers s). ftype (fibers s3 ! a) = ftype (fibers s ! a))
     \<and> deletions s3 = Some (ds @ (if i < length olds \<and> \<not> same_at ts es i then [olds ! i] else []))
     \<and> length (fibers s3) = length (fibers s) + (if i < length es then 1 else 0)
     \<and> (i < length es \<longrightarrow> p' = Some (length (fibers s))
           \<and> effectTag (fibers s3 ! length (fibers s))
               = Some (if same_at ts es i then UPDATE else PLACEMENT))
     \<and> (\<forall>a < length (fibers s). a \<notin> set (drop i olds)
           \<longrightarrow> effectTag (fibers s3 ! a) = effectTag (fibers s ! a))"
proof -
  let ?F = "fibers s"
  let ?el = "if i < length es then Some (es ! i) else None"
  let ?flag = "sameType (map_option (getFiber s) ob) ?el"
  obtain n s1 where mk: "makeFiber w ob ?el s = (n, s1)" by (cases "makeFiber w ob ?el s")
  have s1: "deletions s1 = Some ds"
    "i < length es \<longrightarrow> n = Some (length ?F) \<and> (\<exists>f. fibers s1 = ?F @ [f]
        \<and> effectTag f = Some (if ?flag then UPDATE else PLACEMENT))"
    "\<not> i < length es \<longrightarrow> n = None \<and> s1 = s"
    using mk dels makeFiber_Some [of w ob "es ! i" s] makeFiber_None [of w ob s]
    by (cases "i < length es"; auto)+
  let ?F1 = "fibers s1"
  have F1: "length ?F1 = length ?F + (if i < length es then 1 else 0)"
    "\<forall>a < length ?F. ?F1 ! a = ?F ! a"
    using s1 by (auto simp: nth_append)
  define s2 where "s2 = (case ob of
               None \<Rightarrow> s1
             | Some oa \<Rightarrow>
                 if ?flag then s1
                 else s1\<lparr>fibers := ?F1[oa := (?F1 ! oa)\<lparr>effectTag := Some DELETION\<rparr>],
                         deletions := Some (ds @ [oa])\<rparr>)"
  have md: "markDeletion ob ?flag s1 = (Inr (), s2)"
    unfolding s2_def using markDeletion_eq [OF s1(1)] by simp
  let ?ob' = "case ob of Some oa \<Rightarrow> sibling (getFiber s2 oa) | None \<Rightarrow> None"
  have pa: "i = 0 \<or> ?el = None \<or> (\<exists>pa. p = Some pa)"
    using prev by auto
  obtain pa where pa': "i = 0 \<or> ?el = None \<or> p = Some pa" using pa by blast
  define s3 where "s3 =
            (if i = 0 then s2\<lparr>fibers := (fibers s2)[w := (fibers s2 ! w)\<lparr>child := n\<rparr>]\<rparr>
             else if ?el \<noteq> None
             then s2\<lparr>fibers := (fibers s2)[pa := (fibers s2 ! pa)\<lparr>sibling := n\<rparr>]\<rparr>
             else s2)"
  have lk: "linkFiber w i ?el p n s2 = (Inr (), s3)"
    unfolding s3_def using linkFiber_eq [OF pa'] by simp
  have step: "reconcileStep w es i ob p s = (Inr (?ob', n), s3)"
    using mk md lk by (simp add: reconcileStep_def Let_def)
  have flag: "?flag \<longleftrightarrow> same_at ts es i \<and> i < length olds"
  proof (cases "drop i olds")
    case Nil
    with chain have "ob = None" by (simp add: sibling_chain_None)
    moreover from Nil have "\<not> i < length olds" by simp
    ultimately show ?thesis by simp
  next
    case (Cons oa rest)
    with chain have ob: "ob = Some oa" by (simp add: sibling_chain_Cons)
    from Cons have i: "i < length olds" and oa: "oa = olds ! i"
      by (auto simp: drop_Cons_nth)
    from i ty oa have "ftype (?F ! oa) = ts ! i" by simp
    with ob i len show ?thesis by (auto simp: same_at_def getFiber_def)
  qed
  have F2: "length (fibers s2) = length ?F1"
    "\<forall>a. ftype (fibers s2 ! a) = ftype (?F1 ! a)"
    "\<forall>a. sibling (fibers s2 ! a) = sibling (?F1 ! a)"
    "\<forall>a. ob \<noteq> Some a \<longrightarrow> effectTag (fibers s2 ! a) = effectTag (?F1 ! a)"
    by (auto simp: s2_def nth_list_update_total split: option.splits)
  have F23: "length (fibers s3) = length (fibers s2)"
    "\<forall>a. ftype (fibers s3 ! a) = ftype (fibers s2 ! a)"
    "\<forall>a. effectTag (fibers s3 ! a) = effectTag (fibers s2 ! a)"
    "\<forall>a. (0 < i \<and> i < length es \<longrightarrow> a \<noteq> pa)
          \<longrightarrow> sibling (fibers s3 ! a) = sibling (fibers s2 ! a)"
    "deletions s3 = deletions s2"
    by (auto simp: s3_def nth_list_update_total)
  have F3: "length (fibers s3) = length ?F1"
    "\<forall>a. ftype (fibers s3 ! a) = ftype (?F1 ! a)"
    "\<forall>a. effectTag (fibers s3 ! a) = effectTag (fibers s2 ! a)"
    "\<forall>a. (0 < i \<and> i < length es \<longrightarrow> a \<noteq> pa) \<longrightarrow> sibling (fibers s3 ! a) = sibling (?F1 ! a)"
    using F2 F23 by simp_all
  have d3: "deletions s3 = Some (ds @ (if i < length olds \<and> \<not> same_at ts es i then [olds ! i] else []))"
  proof (cases "drop i olds")
    case Nil
    with chain have "ob = None" by (simp add: sibling_chain_None)
    moreover from Nil have "\<not> i < length olds" by simp
    ultimately show ?thesis using s1(1) F23(5) by (simp add: s2_def)
  next
    case (Cons oa rest)
    with chain have ob: "ob = Some oa" by (simp add: sibling_chain_Cons)
    from Cons have i: "i < length olds" and oa: "oa = olds ! i"
      by (auto simp: drop_Cons_nth)
    show ?thesis using ob i oa flag s1(1) F23(5) by (simp add: s2_def)
  qed
  have ch3: "sibling_chain (fibers s3) ?ob' (drop (Suc i) olds)"
  proof (cases "drop i olds")
    case Nil
    with chain have ob: "ob = None" by (simp add: sibling_chain_None)
    from Nil have "drop (Suc i) olds = []" by simp
    with ob show ?thesis by simp
  next
    case (Cons oa rest)
    with chain have ob: "ob = Some oa" and oal: "oa < length ?F"
      and rest: "sibling_chain ?F (sibling (?F ! oa)) rest"
      by (simp_all add: sibling_chain_Cons)
    from Cons have dr: "drop (Suc i) olds = rest"
      by (metis drop_Suc tl_drop list.sel(3))
    have ob': "?ob' = sibling (?F ! oa)"
      using ob oal F2(3) F1(2) by (simp add: getFiber_def)
    have bound: "\<And>a. a \<in> set rest \<Longrightarrow> a < length ?F"
      using sibling_chain_bound [OF rest] by blast
    have notpa: "\<And>a. a \<in> set rest \<Longrightarrow> 0 < i \<and> i < length es \<longrightarrow> a \<noteq> pa"
      using prev pa' Cons by auto
    have "sibling_chain (fibers s3) (sibling (?F ! oa)) rest"
    proof (rule sibling_chain_frame [OF rest])
      show "length ?F \<le> length (fibers s3)" using F3(1) F1(1) by simp
    next
      fix a assume a: "a \<in> set rest"
      from notpa [OF a] F3(4) have "sibling (fibers s3 ! a) = sibling (?F1 ! a)" by blast
      with bound [OF a] F1(2) show "sibling (fibers s3 ! a) = sibling (?F ! a)" by simp
    qed
    with ob' dr show ?thesis by simp
  qed
  have ty3: "\<forall>a < length ?F. ftype (fibers s3 ! a) = ftype (?F ! a)"
    using F3(2) F1(2) by simp
  have len3: "length (fibers s3) = length ?F + (if i < length es then 1 else 0)"
    using F3(1) F1(1) by simp
  have obn: "ob \<noteq> Some (length ?F)"
  proof (cases "drop i olds")
    case Nil
    with chain show ?thesis by (simp add: sibling_chain_None)
  next
    case (Cons oa rest)
    with chain show ?thesis by (auto simp: sibling_chain_Cons)
  qed
  have new3: "i < length es \<longrightarrow> n = Some (length ?F)
           \<and> effectTag (fibers s3 ! length ?F)
               = Some (if same_at ts es i then UPDATE else PLACEMENT)"
  proof
    assume ies: "i < length es"
    with s1(2) obtain f where f: "n = Some (length ?F)" "?F1 = ?F @ [f]"
      "effectTag f = Some (if ?flag then UPDATE else PLACEMENT)"
      by auto
    have "effectTag (fibers s3 ! length ?F) = effectTag (?F1 ! length ?F)"
      using F3(3) F2(4) obn by simp
    also have "\<dots> = effectTag f" using f(2) by simp
    finally have "effectTag (fibers s3 ! length ?F) = Some (if ?flag then UPDATE else PLACEMENT)"
      using f(3) by simp
    moreover have "?flag \<longleftrightarrow> same_at ts es i"
      using flag len by (auto simp: same_at_def)
    ultimately show "n = Some (length ?F)
           \<and> effectTag (fibers s3 ! length ?F)
               = Some (if same_at ts es i then UPDATE else PLACEMENT)"
      using f(1) by simp
  qed
  have tag3: "\<forall>a < length ?F. a \<notin> set (drop i olds)
                 \<longrightarrow> effectTag (fibers s3 ! a) = effectTag (?F ! a)"
  proof (intro allI impI)
    fix a assume a: "a < length ?F" "a \<notin> set (drop i olds)"
    have "ob \<noteq> Some a"
    proof (cases "drop i olds")
      case Nil
      with chain show ?thesis by (simp add: sibling_chain_None)
    next
      case (Cons oa rest)
      with chain a(2) show ?thesis by (auto simp: sibling_chain_Cons)
    qed
    with F3(3) F2(4) F1(2) a(1) show "effectTag (fibers s3 ! a) = effectTag (?F ! a)"
      by simp
  qed
  from step ch3 ty3 d3 len3 new3 tag3 show ?thesis by blast
qed

lemma nth_in_drop:
  assumes "i \<le> j" and "j < length xs"
  shows "xs ! j \<in> set (drop i xs)"
proof -
  from assms have "drop i xs ! (j - i) = xs ! j" by simp
  moreover from assms have "j - i < length (drop i xs)" by simp
  ultimately show ?thesis by (metis nth_mem)
qed

text \<open>The whole loop, from position \<open>i\<close> on: it ends, and it deletes exactly the old
  fibers at the positions where old and new type differ or where no new descriptor
  is left, and tags each new fiber by the comparison at its own position.\<close>

lemma reconcileLoop_effects:
  assumes len: "length ts = length olds"
  shows "sibling_chain (fibers s) ob (drop i olds) \<Longrightarrow> deletions s = Some ds \<Longrightarrow>
     (0 < i \<and> i < length es \<longrightarrow> (\<exists>pa. p = Some pa \<and> pa \<notin> set (drop i olds))) \<Longrightarrow>
     (\<forall>j. i \<le> j \<and> j < length olds \<longrightarrow> ftype (fibers s ! (olds ! j)) = ts ! j) \<Longrightarrow>
     max (length es) (length olds) - i < fuel \<Longrightarrow>
     \<exists>s'. reconcileLoop fuel w es i ob p s = Some (Inr (), s')
       \<and> deletions s'
           = Some (ds @ map (nth olds) (filter (\<lambda>j. \<not> same_at ts es j) [i..<length olds]))
       \<and> length (fibers s') = length (fibers s) + (length es - i)
       \<and> (\<forall>j. i \<le> j \<and> j < length es
             \<longrightarrow> effectTag (fibers s' ! (length (fibers s) + (j - i)))
                   = Some (if same_at ts es j then UPDATE else PLACEMENT))
       \<and> (\<forall>a < length (fibers s). a \<notin> set (drop i olds)
             \<longrightarrow> effectTag (fibers s' ! a) = effectTag (fibers s ! a))"
proof (induction fuel arbitrary: i ob p s ds)
  case 0
  then show ?case by simp
next
  case (Suc fuel)
  note chain = Suc.prems(1) and dels = Suc.prems(2) and prev = Suc.prems(3)
    and ty = Suc.prems(4) and fuel = Suc.prems(5)
  let ?F = "fibers s"
  show ?case
  proof (cases "i < length es \<or> ob \<noteq> None")
    case False
    then have ob: "ob = None" and ies: "\<not> i < length es" by simp_all
    from chain ob have "drop i olds = []" by (cases "drop i olds") simp_all
    then have "\<not> i < length olds" by simp
    with ob ies dels show ?thesis by auto
  next
    case True
    have ty0: "i < length olds \<longrightarrow> ftype (?F ! (olds ! i)) = ts ! i" using ty by simp
    from reconcileStep_effects [OF chain dels prev len ty0, of w]
    obtain ob' p' s3 where
      step: "reconcileStep w es i ob p s = (Inr (ob', p'), s3)"
      and ch3: "sibling_chain (fibers s3) ob' (drop (Suc i) olds)"
      and ty3: "\<forall>a < length ?F. ftype (fibers s3 ! a) = ftype (?F ! a)"
      and d3: "deletions s3
                 = Some (ds @ (if i < length olds \<and> \<not> same_at ts es i then [olds ! i] else []))"
      and len3: "length (fibers s3) = length ?F + (if i < length es then 1 else 0)"
      and new3: "i < length es \<longrightarrow> p' = Some (length ?F)
                   \<and> effectTag (fibers s3 ! length ?F)
                       = Some (if same_at ts es i then UPDATE else PLACEMENT)"
      and tag3: "\<forall>a < length ?F. a \<notin> set (drop i olds)
                   \<longrightarrow> effectTag (fibers s3 ! a) = effectTag (?F ! a)"
      by blast
    have bound: "\<And>a. a \<in> set (drop i olds) \<Longrightarrow> a < length ?F"
      using sibling_chain_bound [OF chain] by blast
    have sub: "set (drop (Suc i) olds) \<subseteq> set (drop i olds)"
      by (simp add: set_drop_subset_set_drop)
    have fresh: "length ?F \<notin> set (drop (Suc i) olds)"
      using bound sub by blast
    have prev3: "0 < Suc i \<and> Suc i < length es
                   \<longrightarrow> (\<exists>pa. p' = Some pa \<and> pa \<notin> set (drop (Suc i) olds))"
      using new3 fresh by auto
    have ty3': "\<forall>j. Suc i \<le> j \<and> j < length olds \<longrightarrow> ftype (fibers s3 ! (olds ! j)) = ts ! j"
    proof (intro allI impI)
      fix j assume j: "Suc i \<le> j \<and> j < length olds"
      then have "olds ! j \<in> set (drop i olds)"
        by (simp add: nth_in_drop)
      then have "olds ! j < length ?F" by (rule bound)
      with ty3 ty j show "ftype (fibers s3 ! (olds ! j)) = ts ! j" by simp
    qed
    have i: "i < max (length es) (length olds)"
    proof (cases "i < length es")
      case True
      then show ?thesis by simp
    next
      case False
      with \<open>i < length es \<or> ob \<noteq> None\<close> have "ob \<noteq> None" by simp
      with chain have "drop i olds \<noteq> []" by (auto simp: sibling_chain_None)
      then show ?thesis by simp
    qed
    with fuel have fuel3: "max (length es) (length olds) - Suc i < fuel" by simp
    from Suc.IH [OF ch3 d3 prev3 ty3' fuel3]
    obtain s' where
      run: "reconcileLoop fuel w es (Suc i) ob' p' s3 = Some (Inr (), s')"
      and d': "deletions s'
                 = Some ((ds @ (if i < length olds \<and> \<not> same_at ts es i then [olds ! i] else []))
                         @ map (nth olds)
                             (filter (\<lambda>j. \<not> same_at ts es j) [Suc i..<length olds]))"
      and len': "length (fibers s') = length (fibers s3) + (length es - Suc i)"
      and new': "\<forall>j. Suc i \<le> j \<and> j < length es
                   \<longrightarrow> effectTag (fibers s' ! (length (fibers s3) + (j - Suc i)))
                         = Some (if same_at ts es j then UPDATE else PLACEMENT)"
      and tag': "\<forall>a < length (fibers s3). a \<notin> set (drop (Suc i) olds)
                   \<longrightarrow> effectTag (fibers s' ! a) = effectTag (fibers s3 ! a)"
      by blast
    have 1: "reconcileLoop (Suc fuel) w es i ob p s = Some (Inr (), s')"
      using True step run by simp
    have same_olds: "same_at ts es i \<Longrightarrow> i < length olds"
      using len by (simp add: same_at_def)
    have 2: "deletions s'
               = Some (ds @ map (nth olds)
                              (filter (\<lambda>j. \<not> same_at ts es j) [i..<length olds]))"
    proof (cases "i < length olds")
      case True
      then show ?thesis using d' by (simp add: upt_conv_Cons)
    next
      case False
      then show ?thesis using d' by simp
    qed
    have 3: "length (fibers s') = length ?F + (length es - i)"
      using len' len3 by auto
    have 4: "\<forall>j. i \<le> j \<and> j < length es
               \<longrightarrow> effectTag (fibers s' ! (length ?F + (j - i)))
                     = Some (if same_at ts es j then UPDATE else PLACEMENT)"
    proof (intro allI impI)
      fix j assume j: "i \<le> j \<and> j < length es"
      show "effectTag (fibers s' ! (length ?F + (j - i)))
              = Some (if same_at ts es j then UPDATE else PLACEMENT)"
      proof (cases "j = i")
        case True
        with j have ies: "i < length es" by simp
        with len3 have "length ?F < length (fibers s3)" by simp
        with tag' fresh have "effectTag (fibers s' ! length ?F) = effectTag (fibers s3 ! length ?F)"
          by blast
        with new3 ies True show ?thesis by simp
      next
        case False
        with j have j': "Suc i \<le> j \<and> j < length es" by simp
        then have "i < length es" by simp
        with len3 have "length (fibers s3) + (j - Suc i) = length ?F + (j - i)"
          using j' by auto
        with new' j' show ?thesis by metis
      qed
    qed
    have 5: "\<forall>a < length ?F. a \<notin> set (drop i olds)
               \<longrightarrow> effectTag (fibers s' ! a) = effectTag (?F ! a)"
    proof (intro allI impI)
      fix a assume a: "a < length ?F" "a \<notin> set (drop i olds)"
      from a(1) len3 have "a < length (fibers s3)" by simp
      moreover from a(2) sub have "a \<notin> set (drop (Suc i) olds)" by blast
      ultimately have "effectTag (fibers s' ! a) = effectTag (fibers s3 ! a)"
        using tag' by blast
      with tag3 a show "effectTag (fibers s' ! a) = effectTag (?F ! a)" by simp
    qed
    from 1 2 3 4 5 show ?thesis by blast
  qed
qed

text \<open>
  C6, as stated, names the wrong fiber.  The list \<open>a, b, c\<close> under \<open>ul\<close> is mounted
  (fibers 2, 3 and 4) and rendered again without \<open>a\<close>, the item at position 0.  The
  matching is by position, so the new items \<open>b\<close> and \<open>c\<close> update the fibers of \<open>a\<close>
  and \<open>b\<close>, and the one deletion is that of fiber 4, the prior occupant of the last
  position: the fiber of \<open>a\<close> is not tagged for deletion, and the host removes the
  node created for \<open>c\<close> after which the two remaining nodes are renamed.
\<close>

theorem removed_first_item_counterexample:
  "map_option
     (\<lambda>s. (deletions s, map (\<lambda>a. (attrs (props (fibers s ! a)), effectTag (fibers s ! a))) [2, 3, 4],
           map (\<lambda>a. (alternate (fibers s ! a), effectTag (fibers s ! a))) [7, 8],
           drop 11 (hostLog s)))
     three_then_two
   = Some (Some [4],
           [([(''id'', VStr ''a'')], Some PLACEMENT), ([(''id'', VStr ''b'')], Some PLACEMENT),
            ([(''id'', VStr ''c'')], Some DELETION)],
           [(Some 2, Some UPDATE), (Some 3, Some UPDATE)],
           [RemoveChild (Created 0) (Created 3),
            SetProperty (Created 1) ''id'' (VStr ''b''),
            SetProperty (Created 2) ''id'' (VStr ''c'')])"
  by code_simp

text \<open>
  C6, amended.  Let the old children of a fiber be the chain \<open>olds\<close>, of the types of
  the \<open>N\<close> descriptors \<open>prev\<close>, and let the new children be \<open>prev\<close> without its
  element at position \<open>p\<close>.  Then reconciliation ends and creates \<open>N - 1\<close> new fibers;
  it puts on the deletion list the prior occupant of the last position \<open>N - 1\<close> (not
  that of \<open>p\<close>), preceded by the prior occupant of every shifted position whose
  descriptor has changed its type; the new fiber at such a position is a PLACEMENT,
  every other new fiber is an UPDATE.  So when the types agree along the shift, as in
  a list of items of one type, there is exactly one DELETION, for the occupant of the
  last position, and there is no PLACEMENT.
\<close>

theorem removed_child_deletes_last_position:
  assumes chain: "sibling_chain (fibers s)
                    (case alternate (getFiber s w) of
                       None \<Rightarrow> None
                     | Some alt \<Rightarrow> child (getFiber s alt)) olds"
    and dels: "deletions s = Some ds"
    and len: "length olds = length prev"
    and ty: "\<forall>j < length prev. ftype (fibers s ! (olds ! j)) = Some (elem_type (prev ! j))"
    and p: "p < length prev"
    and fuel: "length prev < fuel"
  shows "\<exists>s'. reconcileChildren fuel w (take p prev @ drop (Suc p) prev) s = Some (Inr (), s')
     \<and> deletions s'
         = Some (ds @ map (nth olds) (filter (type_changes prev p) [0..<length prev - 1])
                    @ [olds ! (length prev - 1)])
     \<and> length (fibers s') = length (fibers s) + (length prev - 1)
     \<and> (\<forall>j < length prev - 1.
           effectTag (fibers s' ! (length (fibers s) + j))
             = Some (if type_changes prev p j then PLACEMENT else UPDATE))"
proof -
  let ?N = "length prev"
  let ?es = "take p prev @ drop (Suc p) prev"
  let ?ts = "map (\<lambda>e. Some (elem_type e)) prev"
  let ?ob = "case alternate (getFiber s w) of None \<Rightarrow> None | Some alt \<Rightarrow> child (getFiber s alt)"
  have les: "length ?es = ?N - 1" using p by auto
  have nth_es: "?es ! j = (if j < p then prev ! j else prev ! Suc j)" if "j < ?N - 1" for j
    using that p by (auto simp: nth_append min_def)
  have same: "same_at ?ts ?es j \<longleftrightarrow> j < ?N - 1 \<and> \<not> type_changes prev p j" for j
  proof (cases "j < ?N - 1")
    case True
    then show ?thesis using nth_es [OF True] les
      by (auto simp: same_at_def type_changes_def)
  next
    case False
    then show ?thesis using les by (simp add: same_at_def)
  qed
  have upt: "[0..<?N] = [0..<?N - 1] @ [?N - 1]"
    using p by (metis Suc_diff_1 gr_implies_not0 neq0_conv upt_Suc_append zero_le)
  have filt1: "filter (\<lambda>j. \<not> same_at ?ts ?es j) [0..<?N - 1]
                 = filter (type_changes prev p) [0..<?N - 1]"
    by (rule filter_cong) (simp_all add: same)
  have filt: "filter (\<lambda>j. \<not> same_at ?ts ?es j) [0..<length olds]
                = filter (type_changes prev p) [0..<?N - 1] @ [?N - 1]"
  proof -
    have "filter (\<lambda>j. \<not> same_at ?ts ?es j) [0..<?N]
            = filter (\<lambda>j. \<not> same_at ?ts ?es j) [0..<?N - 1]
              @ filter (\<lambda>j. \<not> same_at ?ts ?es j) [?N - 1]"
      by (metis upt filter_append)
    then show ?thesis using filt1 len by (simp add: same)
  qed
  have 1: "length ?ts = length olds" using len by simp
  have 2: "sibling_chain (fibers s) ?ob (drop 0 olds)" using chain by simp
  have 3: "0 < (0::nat) \<and> 0 < length ?es
             \<longrightarrow> (\<exists>pa. None = Some pa \<and> pa \<notin> set (drop 0 olds))" by simp
  have 4: "\<forall>j. 0 \<le> j \<and> j < length olds \<longrightarrow> ftype (fibers s ! (olds ! j)) = ?ts ! j"
    using ty len by simp
  have 5: "max (length ?es) (length olds) - 0 < fuel" using les len fuel by simp
  from reconcileLoop_effects [OF 1 2 dels 3 4 5, of w]
  obtain s' where
    run: "reconcileLoop fuel w ?es 0 ?ob None s = Some (Inr (), s')"
    and d': "deletions s'
               = Some (ds @ map (nth olds)
                              (filter (\<lambda>j. \<not> same_at ?ts ?es j) [0..<length olds]))"
    and len': "length (fibers s') = length (fibers s) + (length ?es - 0)"
    and new': "\<forall>j. 0 \<le> j \<and> j < length ?es
                 \<longrightarrow> effectTag (fibers s' ! (length (fibers s) + (j - 0)))
                       = Some (if same_at ?ts ?es j then UPDATE else PLACEMENT)"
    by blast
  have a: "reconcileChildren fuel w ?es s = Some (Inr (), s')"
    using run by (simp add: reconcileChildren_def)
  have b: "deletions s'
             = Some (ds @ map (nth olds) (filter (type_changes prev p) [0..<?N - 1])
                        @ [olds ! (?N - 1)])"
    using d' filt by simp
  have c: "length (fibers s') = length (fibers s) + (?N - 1)"
    using len' les by simp
  have d: "\<forall>j < ?N - 1. effectTag (fibers s' ! (length (fibers s) + j))
                          = Some (if type_changes prev p j then PLACEMENT else UPDATE)"
  proof (intro allI impI)
    fix j assume j: "j < ?N - 1"
    with new' les have "effectTag (fibers s' ! (length (fibers s) + j))
                          = Some (if same_at ?ts ?es j then UPDATE else PLACEMENT)"
      by simp
    with j show "effectTag (fibers s' ! (length (fibers s) + j))
                   = Some (if type_changes prev p j then PLACEMENT else UPDATE)"
      by (simp add: same)
  qed
  from a b c d show ?thesis by blast
qed

theorem removed_child_deletes_last_position_witness:
  "(case before_list of
      None \<Rightarrow> False
    | Some s \<Rightarrow>
        children (props (getFiber s 6)) = [li ''b'', li ''c'']
        \<and> (\<exists>s'. reconcileChildren 4 6 [li ''b'', li ''c''] s = Some (Inr (), s')
               \<and> deletions s' = Some [4]
               \<and> length (fibers s') = 9
               \<and> effectTag (fibers s' ! 7) = Some UPDATE
               \<and> effectTag (fibers s' ! 8) = Some UPDATE))"
proof -
  let ?prev = "[li ''a'', li ''b'', li ''c'']"
  let ?olds = "[2, 3, 4] :: nat list"
  have pre: "case before_list of
               None \<Rightarrow> False
             | Some s \<Rightarrow>
                 children (props (getFiber s 6)) = [li ''b'', li ''c'']
                 \<and> sibling_chain (fibers s)
                     (case alternate (getFiber s 6) of
                        None \<Rightarrow> None
                      | Some alt \<Rightarrow> child (getFiber s alt)) ?olds
                 \<and> deletions s = Some []
                 \<and> map (\<lambda>a. ftype (fibers s ! a)) ?olds = map (\<lambda>e. Some (elem_type e)) ?prev
                 \<and> length (fibers s) = 7"
    by code_simp
  then obtain s where s: "before_list = Some s"
    by (cases before_list) simp_all
  from pre [unfolded s option.case] have
    kids: "children (props (getFiber s 6)) = [li ''b'', li ''c'']"
    and chain: "sibling_chain (fibers s)
                  (case alternate (getFiber s 6) of
                     None \<Rightarrow> None
                   | Some alt \<Rightarrow> child (getFiber s alt)) ?olds"
    and dels: "deletions s = Some []"
    and tys: "map (\<lambda>a. ftype (fibers s ! a)) ?olds = map (\<lambda>e. Some (elem_type e)) ?prev"
    and n: "length (fibers s) = 7"
    by blast+
  have len: "length ?olds = length ?prev" by simp
  have ty: "\<forall>j < length ?prev. ftype (fibers s ! (?olds ! j)) = Some (elem_type (?prev ! j))"
    using tys by (auto simp: less_Suc_eq numeral_3_eq_3)
  have p: "0 < length ?prev" by simp
  have fuel: "length ?prev < 4" by simp
  have nochange: "filter (type_changes ?prev 0) [0..<length ?prev - 1] = []"
    by (simp add: type_changes_def li_def upt_conv_Cons)
  from removed_child_deletes_last_position [OF chain dels len ty p fuel]
  obtain s' where
    run: "reconcileChildren 4 6 (take 0 ?prev @ drop (Suc 0) ?prev) s = Some (Inr (), s')"
    and d': "deletions s'
               = Some ([] @ map (nth ?olds)
                              (filter (type_changes ?prev 0) [0..<length ?prev - 1])
                          @ [?olds ! (length ?prev - 1)])"
    and len': "length (fibers s') = length (fibers s) + (length ?prev - 1)"
    and new': "\<forall>j < length ?prev - 1.
                 effectTag (fibers s' ! (length (fibers s) + j))
                   = Some (if type_changes ?prev 0 j then PLACEMENT else UPDATE)"
    by blast
  have a: "reconcileChildren 4 6 [li ''b'', li ''c''] s = Some (Inr (), s')"
    using run by simp
  have b: "deletions s' = Some [4]"
    using d' nochange by simp
  have c: "length (fibers s') = 9" using len' n by simp
  have "effectTag (fibers s' ! (length (fibers s) + 0))
          = Some (if type_changes ?prev 0 0 then PLACEMENT else UPDATE)"
    using new' [rule_format, of 0] by simp
  then have d: "effectTag (fibers s' ! 7) = Some UPDATE"
    using n by (simp add: type_changes_def li_def)
  have "effectTag (fibers s' ! (length (fibers s) + 1))
          = Some (if type_changes ?prev 0 1 then PLACEMENT else UPDATE)"
    using new' [rule_format, of 1] by simp
  then have e: "effectTag (fibers s' ! 8) = Some UPDATE"
    using n by (simp add: type_changes_def li_def)
  from a b c d e have
    "\<exists>s'. reconcileChildren 4 6 [li ''b'', li ''c''] s = Some (Inr (), s')
        \<and> deletions s' = Some [4]
        \<and> length (fibers s') = 9
        \<and> effectTag (fibers s' ! 7) = Some UPDATE
        \<and> effectTag (fibers s' ! 8) = Some UPDATE"
    by blast
  with kids show ?thesis unfolding s option.case by (rule conjI)
qed

end
